theory Spec2Isabelle
  imports Main "HOL-Library.Sublist"
begin

section \<open>Line alignment: \<open>buildLineOperations\<close>\<close>

text \<open>
  Strings are \<^typ>\<open>string\<close>, lists of the code units that a \<^typ>\<open>char\<close> holds (those below
  256); a line sequence is a \<^typ>\<open>string list\<close>, and two lines are equal when they are the same
  list. The operation record keeps the four fields of the source, the field \<open>type\<close> under the
  name \<open>optype\<close>; \<open>oldLine\<close> and \<open>newLine\<close> are \<open>0\<close> where the source writes \<open>0\<close> (an add
  has no old line, a remove no new line).
\<close>

datatype opType = OpEqual | OpRemove | OpAdd

record lineOp =
  optype :: opType
  line :: string
  oldLine :: nat
  newLine :: nat

text \<open>
  The matrix is an array of rows. \<open>cell m i j\<close> is the guarded read
  \<^verbatim>\<open>matrix[i]?.[j] ?? 0\<close>; \<open>setCell\<close> is the write \<^verbatim>\<open>currentRow[j] = v\<close> with
  \<^verbatim>\<open>currentRow = matrix[i]\<close>.
\<close>

definition cell :: "nat list list \<Rightarrow> nat \<Rightarrow> nat \<Rightarrow> nat" where
  "cell m i j = (if i < length m \<and> j < length (m ! i) then m ! i ! j else 0)"

definition setCell :: "nat list list \<Rightarrow> nat \<Rightarrow> nat \<Rightarrow> nat \<Rightarrow> nat list list" where
  "setCell m i j v = m[i := (m ! i)[j := v]]"

text \<open>
  The inner loop \<^verbatim>\<open>for (j = newLines.length - 1; j >= 0; j -= 1)\<close>: the counter of the
  model is \<open>j + 1\<close>, so that \<open>Suc j\<close> processes column \<open>j\<close> and \<open>0\<close> leaves the loop.
  The outer loop over \<open>i\<close> is written the same way.
\<close>

fun fillRow :: "string list \<Rightarrow> string list \<Rightarrow> nat \<Rightarrow> nat \<Rightarrow> nat list list \<Rightarrow> nat list list" where
  "fillRow oldLines newLines i 0 matrix = matrix"
| "fillRow oldLines newLines i (Suc j) matrix =
     fillRow oldLines newLines i j
       (setCell matrix i j
          (if oldLines ! i = newLines ! j
           then cell matrix (i + 1) (j + 1) + 1
           else max (cell matrix (i + 1) j) (cell matrix i (j + 1))))"

fun fillRows :: "string list \<Rightarrow> string list \<Rightarrow> nat \<Rightarrow> nat list list \<Rightarrow> nat list list" where
  "fillRows oldLines newLines 0 matrix = matrix"
| "fillRows oldLines newLines (Suc i) matrix =
     fillRows oldLines newLines i (fillRow oldLines newLines i (length newLines) matrix)"

definition lcsMatrix :: "string list \<Rightarrow> string list \<Rightarrow> nat list list" where
  "lcsMatrix oldLines newLines =
     fillRows oldLines newLines (length oldLines)
       (replicate (length oldLines + 1) (replicate (length newLines + 1) 0))"

text \<open>The two trailing loops: the rest of the old lines is removed, the rest of the new lines added.\<close>

function removeRest :: "string list \<Rightarrow> nat \<Rightarrow> nat \<Rightarrow> lineOp list" where
  "removeRest oldLines i oldLn =
     (if i < length oldLines
      then \<lparr>optype = OpRemove, line = oldLines ! i, oldLine = oldLn, newLine = 0\<rparr>
             # removeRest oldLines (i + 1) (oldLn + 1)
      else [])"
  by pat_completeness auto
termination
  by (relation "measure (\<lambda>(oldLines, i, oldLn). length oldLines - i)") auto

function addRest :: "string list \<Rightarrow> nat \<Rightarrow> nat \<Rightarrow> lineOp list" where
  "addRest newLines j newLn =
     (if j < length newLines
      then \<lparr>optype = OpAdd, line = newLines ! j, oldLine = 0, newLine = newLn\<rparr>
             # addRest newLines (j + 1) (newLn + 1)
      else [])"
  by pat_completeness auto
termination
  by (relation "measure (\<lambda>(newLines, j, newLn). length newLines - j)") auto

text \<open>
  The main loop walks the matrix from \<open>(i, j)\<close>; the operations it pushes are returned in the
  order of the pushes, followed by those of the two trailing loops.
\<close>

function lineOpsFrom ::
  "string list \<Rightarrow> string list \<Rightarrow> nat list list \<Rightarrow> nat \<Rightarrow> nat \<Rightarrow> nat \<Rightarrow> nat \<Rightarrow> lineOp list" where
  "lineOpsFrom oldLines newLines matrix i j oldLn newLn =
     (if i < length oldLines \<and> j < length newLines then
        (if oldLines ! i = newLines ! j then
           \<lparr>optype = OpEqual, line = oldLines ! i, oldLine = oldLn, newLine = newLn\<rparr>
             # lineOpsFrom oldLines newLines matrix (i + 1) (j + 1) (oldLn + 1) (newLn + 1)
         else if cell matrix (i + 1) j \<ge> cell matrix i (j + 1) then
           \<lparr>optype = OpRemove, line = oldLines ! i, oldLine = oldLn, newLine = 0\<rparr>
             # lineOpsFrom oldLines newLines matrix (i + 1) j (oldLn + 1) newLn
         else
           \<lparr>optype = OpAdd, line = newLines ! j, oldLine = 0, newLine = newLn\<rparr>
             # lineOpsFrom oldLines newLines matrix i (j + 1) oldLn (newLn + 1))
      else removeRest oldLines i oldLn @ addRest newLines j newLn)"
  by pat_completeness auto
termination
  by (relation "measure (\<lambda>(oldLines, newLines, matrix, i, j, oldLn, newLn).
                  (length oldLines - i) + (length newLines - j))") auto

definition buildLineOperations :: "string list \<Rightarrow> string list \<Rightarrow> lineOp list" where
  "buildLineOperations oldLines newLines =
     lineOpsFrom oldLines newLines (lcsMatrix oldLines newLines) 0 0 1 1"

text \<open>Replaying an edit script: the lines kept on the old side and on the new side.\<close>

definition oldSide :: "lineOp list \<Rightarrow> lineOp list" where
  "oldSide ops = filter (\<lambda>op. optype op \<noteq> OpAdd) ops"

definition newSide :: "lineOp list \<Rightarrow> lineOp list" where
  "newSide ops = filter (\<lambda>op. optype op \<noteq> OpRemove) ops"

definition equalOps :: "lineOp list \<Rightarrow> lineOp list" where
  "equalOps ops = filter (\<lambda>op. optype op = OpEqual) ops"

text \<open>The length of a longest common subsequence of two suffixes, by the textbook recurrence.\<close>

fun lcsLen :: "string list \<Rightarrow> string list \<Rightarrow> nat" where
  "lcsLen [] ys = 0"
| "lcsLen (x # xs) [] = 0"
| "lcsLen (x # xs) (y # ys) =
     (if x = y then lcsLen xs ys + 1 else max (lcsLen xs (y # ys)) (lcsLen (x # xs) ys))"

declare removeRest.simps [simp del] addRest.simps [simp del] lineOpsFrom.simps [simp del]

text \<open>Invariants of the matrix loops: the shape of the matrix, and the cells already filled.\<close>

definition shaped :: "nat list list \<Rightarrow> nat \<Rightarrow> nat \<Rightarrow> bool" where
  "shaped m n k = (length m = n + 1 \<and> (\<forall>i < length m. length (m ! i) = k + 1))"

definition filledRow :: "string list \<Rightarrow> string list \<Rightarrow> nat list list \<Rightarrow> nat \<Rightarrow> nat \<Rightarrow> bool" where
  "filledRow old new m i j =
     (shaped m (length old) (length new) \<and>
      (\<forall>i' j'. i' \<le> length old \<longrightarrow> j' \<le> length new \<longrightarrow>
         (i < i' \<or> (i' = i \<and> j \<le> j') \<or> j' = length new) \<longrightarrow>
         cell m i' j' = lcsLen (drop i' old) (drop j' new)))"

definition filledAbove :: "string list \<Rightarrow> string list \<Rightarrow> nat list list \<Rightarrow> nat \<Rightarrow> bool" where
  "filledAbove old new m k =
     (shaped m (length old) (length new) \<and>
      (\<forall>i' j'. i' \<le> length old \<longrightarrow> j' \<le> length new \<longrightarrow>
         (k \<le> i' \<or> j' = length new) \<longrightarrow>
         cell m i' j' = lcsLen (drop i' old) (drop j' new)))"


section \<open>Word alignment: \<open>diffInlineSegments\<close>\<close>

text \<open>
  The regular expression class \<^verbatim>\<open>\s\<close> on the code units that a \<^typ>\<open>char\<close> holds: tab, line
  feed, vertical tab, form feed, carriage return, space and the no-break space.
\<close>

definition isWhitespace :: "char \<Rightarrow> bool" where
  "isWhitespace c = ((of_char c :: nat) \<in> {9, 10, 11, 12, 13, 32, 160})"

text \<open>
  \<^verbatim>\<open>s.split(/(\s+)/)\<close>: the pieces between the maximal runs of whitespace, with the runs
  themselves (the capture group) kept between them. A leading or trailing run leaves an empty
  piece before or after it, and the empty string splits into one empty piece; \<open>tokens\<close> then
  drops the empty pieces, as \<^verbatim>\<open>.filter((part) => part.length > 0)\<close> does.
\<close>

function splitWhitespace :: "string \<Rightarrow> string list" where
  "splitWhitespace s =
     (let pre = takeWhile (\<lambda>c. \<not> isWhitespace c) s;
          rest = dropWhile (\<lambda>c. \<not> isWhitespace c) s
      in if rest = [] then [pre]
         else pre # takeWhile isWhitespace rest # splitWhitespace (dropWhile isWhitespace rest))"
  by pat_completeness auto
termination
proof (relation "measure length", goal_cases)
  case 1
  show ?case by simp
next
  case (2 s pre rest)
  then have ne: "rest \<noteq> []" and rs: "rest = dropWhile (\<lambda>c. \<not> isWhitespace c) s"
    by simp_all
  from ne obtain a list where r: "rest = a # list"
    by (auto simp: neq_Nil_conv)
  have "isWhitespace (hd rest)"
    using ne hd_dropWhile [of "\<lambda>c. \<not> isWhitespace c" s] unfolding rs by simp
  then have "dropWhile isWhitespace rest = dropWhile isWhitespace list"
    using r by simp
  then have "length (dropWhile isWhitespace rest) < length rest"
    using length_dropWhile_le [of isWhitespace list] r by simp
  moreover have "length rest \<le> length s"
    unfolding rs by (rule length_dropWhile_le)
  ultimately show ?case by simp
qed

declare splitWhitespace.simps [simp del]

definition tokens :: "string \<Rightarrow> string list" where
  "tokens s = filter (\<lambda>part. length part > 0) (splitWhitespace s)"

text \<open>
  What it means that the tokens are the runs of the string: every token is non-empty and is
  whitespace throughout or free of it, and neighbouring tokens are of different kinds (so each
  run is maximal).
\<close>

definition homogeneous :: "string \<Rightarrow> bool" where
  "homogeneous t = (t \<noteq> [] \<and> (list_all isWhitespace t \<or> list_all (\<lambda>c. \<not> isWhitespace c) t))"

fun tokenRuns :: "string list \<Rightarrow> bool" where
  "tokenRuns [] = True"
| "tokenRuns [t] = homogeneous t"
| "tokenRuns (t # u # rest) =
     (homogeneous t \<and> isWhitespace (hd t) \<noteq> isWhitespace (hd u) \<and> tokenRuns (u # rest))"

text \<open>
  A part is the source's \<^verbatim>\<open>{ text, changed }\<close>; the field \<open>text\<close> is named \<open>ptext\<close> here.
\<close>

record inlinePart =
  ptext :: string
  changed :: bool

record inlineDiff =
  left :: "inlinePart list"
  right :: "inlinePart list"

text \<open>
  The two trailing loops push the remaining tokens of a side as changed parts; the main loop
  walks the same matrix as the line alignment (the source builds it with the same two loops).
\<close>

function changedRest :: "string list \<Rightarrow> nat \<Rightarrow> inlinePart list" where
  "changedRest toks i =
     (if i < length toks
      then \<lparr>ptext = toks ! i, changed = True\<rparr> # changedRest toks (i + 1)
      else [])"
  by pat_completeness auto
termination
  by (relation "measure (\<lambda>(toks, i). length toks - i)") auto

declare changedRest.simps [simp del]

function inlineFrom ::
  "string list \<Rightarrow> string list \<Rightarrow> nat list list \<Rightarrow> nat \<Rightarrow> nat \<Rightarrow> inlinePart list \<times> inlinePart list" where
  "inlineFrom leftTokens rightTokens matrix i j =
     (if i < length leftTokens \<and> j < length rightTokens then
        (if leftTokens ! i = rightTokens ! j then
           (case inlineFrom leftTokens rightTokens matrix (i + 1) (j + 1) of
              (leftParts, rightParts) \<Rightarrow>
                (\<lparr>ptext = leftTokens ! i, changed = False\<rparr> # leftParts,
                 \<lparr>ptext = rightTokens ! j, changed = False\<rparr> # rightParts))
         else if cell matrix (i + 1) j \<ge> cell matrix i (j + 1) then
           (case inlineFrom leftTokens rightTokens matrix (i + 1) j of
              (leftParts, rightParts) \<Rightarrow>
                (\<lparr>ptext = leftTokens ! i, changed = True\<rparr> # leftParts, rightParts))
         else
           (case inlineFrom leftTokens rightTokens matrix i (j + 1) of
              (leftParts, rightParts) \<Rightarrow>
                (leftParts, \<lparr>ptext = rightTokens ! j, changed = True\<rparr> # rightParts)))
      else (changedRest leftTokens i, changedRest rightTokens j))"
  by pat_completeness auto
termination
  by (relation "measure (\<lambda>(leftTokens, rightTokens, matrix, i, j).
                  (length leftTokens - i) + (length rightTokens - j))") auto

declare inlineFrom.simps [simp del]

definition diffInlineSegments :: "string \<Rightarrow> string \<Rightarrow> inlineDiff" where
  "diffInlineSegments l r =
     (let leftTokens = tokens l;
          rightTokens = tokens r;
          matrix = lcsMatrix leftTokens rightTokens
      in case inlineFrom leftTokens rightTokens matrix 0 0 of
           (leftParts, rightParts) \<Rightarrow> \<lparr>left = leftParts, right = rightParts\<rparr>)"

section \<open>Hunks: \<open>buildDiffHunks\<close>\<close>

text \<open>
  A hunk as the source builds it: the two start lines, the two counts and the prefixed lines.
\<close>

record hunk =
  oldStart :: nat
  oldCount :: nat
  newStart :: nat
  newCount :: nat
  lines :: "string list"

text \<open>
  The first inner loop looks for the first operation from \<open>index\<close> on that is not an equal;
  \<open>None\<close> is the source's \<open>firstChange = -1\<close>.
\<close>

function findFirstChange :: "lineOp list \<Rightarrow> nat \<Rightarrow> nat option" where
  "findFirstChange operations index =
     (if index < length operations then
        (if optype (operations ! index) \<noteq> OpEqual then Some index
         else findFirstChange operations (index + 1))
      else None)"
  by pat_completeness auto
termination
  by (relation "measure (\<lambda>(operations, index). length operations - index)") auto

text \<open>
  The second inner loop, from \<open>firstChange + 1\<close>: a change moves \<open>lastChange\<close>, the loop
  breaks once \<open>index - lastChange > context\<close>, and otherwise \<open>hunkEnd\<close> follows \<open>index\<close>.
  It returns \<open>(hunkEnd, lastChange)\<close>.
\<close>

function extendHunk :: "lineOp list \<Rightarrow> nat \<Rightarrow> nat \<Rightarrow> nat \<Rightarrow> nat \<Rightarrow> nat \<times> nat" where
  "extendHunk operations context index hunkEnd lastChange =
     (if index < length operations then
        (let lastChange' = (if optype (operations ! index) \<noteq> OpEqual then index else lastChange)
         in if int index - int lastChange' > int context then (hunkEnd, lastChange')
            else extendHunk operations context (index + 1) index lastChange')
      else (hunkEnd, lastChange))"
  by pat_completeness auto
termination
  by (relation "measure (\<lambda>(operations, context, index, hunkEnd, lastChange).
                  length operations - index)") auto

declare findFirstChange.simps [simp del] extendHunk.simps [simp del]

text \<open>
  The local variables of one round of the outer loop, once the bounds are settled:
  \<open>hunkStart\<close>, \<open>hunkEnd\<close>, \<open>firstChange\<close> and \<open>lastChange\<close>. \<open>hunkWindow\<close> computes them as
  the source does after \<open>firstChange\<close> is found (\<open>operations.length - 1\<close> is taken on a
  non-empty array only).
\<close>

record window =
  wStart :: nat
  wEnd :: nat
  wFirst :: nat
  wLast :: nat

definition hunkWindow :: "lineOp list \<Rightarrow> nat \<Rightarrow> nat \<Rightarrow> window" where
  "hunkWindow operations context firstChange =
     (let hunkStart0 = nat (max 0 (int firstChange - int context));
          (hunkEnd0, lastChange) = extendHunk operations context (firstChange + 1) firstChange firstChange;
          hunkEnd1 = min (length operations - 1) hunkEnd0;
          hunkEnd2 = (if lastChange + context > hunkEnd1
                      then min (length operations - 1) (lastChange + context) else hunkEnd1);
          hunkStart1 = (if hunkStart0 > hunkEnd2 then hunkEnd2 else hunkStart0)
      in \<lparr>wStart = hunkStart1, wEnd = hunkEnd2, wFirst = firstChange, wLast = lastChange\<rparr>)"

text \<open>
  \<^verbatim>\<open>operations.slice(start, stop)\<close> for \<open>start \<le> stop\<close>, and the hunk built from the sliced
  operations.
\<close>

definition slice :: "'a list \<Rightarrow> nat \<Rightarrow> nat \<Rightarrow> 'a list" where
  "slice xs start stop = take (stop - start) (drop start xs)"

definition makeHunk :: "lineOp list \<Rightarrow> hunk" where
  "makeHunk hunkOps =
     \<lparr>oldStart = (case find (\<lambda>op. oldLine op > 0) hunkOps of Some op \<Rightarrow> oldLine op | None \<Rightarrow> 1),
      oldCount = length (filter (\<lambda>op. optype op \<noteq> OpAdd) hunkOps),
      newStart = (case find (\<lambda>op. newLine op > 0) hunkOps of Some op \<Rightarrow> newLine op | None \<Rightarrow> 1),
      newCount = length (filter (\<lambda>op. optype op \<noteq> OpRemove) hunkOps),
      lines = map (\<lambda>op. if optype op = OpRemove then CHR ''-'' # line op
                         else if optype op = OpAdd then CHR ''+'' # line op
                         else CHR '' '' # line op) hunkOps\<rparr>"

text \<open>The outer loop ends: each round moves the cursor past the first change found.\<close>

lemma findFirstChange_ge: "findFirstChange operations index = Some firstChange \<Longrightarrow> index \<le> firstChange"
proof (induction operations index rule: findFirstChange.induct)
  case (1 operations index)
  from "1.prems" show ?case
    by (subst (asm) findFirstChange.simps) (auto split: if_splits dest: "1.IH")
qed

lemma findFirstChange_less:
  "findFirstChange operations index = Some firstChange \<Longrightarrow> firstChange < length operations"
proof (induction operations index rule: findFirstChange.induct)
  case (1 operations index)
  from "1.prems" show ?case
    by (subst (asm) findFirstChange.simps) (auto split: if_splits dest: "1.IH")
qed

lemma extendHunk_end_ge:
  "hunkEnd \<le> index \<Longrightarrow> hunkEnd \<le> fst (extendHunk operations ctx index hunkEnd lastChange)"
proof (induction operations ctx index hunkEnd lastChange rule: extendHunk.induct)
  case (1 operations ctx index hunkEnd lastChange)
  show ?case
  proof (cases "index < length operations")
    case False
    then show ?thesis by (subst extendHunk.simps) simp
  next
    case True
    let ?l = "if optype (operations ! index) \<noteq> OpEqual then index else lastChange"
    show ?thesis
    proof (cases "int index - int ?l > int ctx")
      case b: True
      then show ?thesis using True by (subst extendHunk.simps) (simp add: Let_def)
    next
      case b: False
      have "index \<le> fst (extendHunk operations ctx (index + 1) index ?l)"
        using True b by (intro "1.IH") simp_all
      moreover have "extendHunk operations ctx index hunkEnd lastChange
          = extendHunk operations ctx (index + 1) index ?l"
        using True b by (subst extendHunk.simps) (simp add: Let_def)
      ultimately show ?thesis using "1.prems" by simp
    qed
  qed
qed

lemma hunkWindow_end_ge:
  assumes "firstChange < length operations"
  shows "firstChange \<le> wEnd (hunkWindow operations ctx firstChange)"
proof -
  obtain e l where x: "extendHunk operations ctx (firstChange + 1) firstChange firstChange = (e, l)"
    by (cases "extendHunk operations ctx (firstChange + 1) firstChange firstChange")
  have "firstChange \<le> e"
    using extendHunk_end_ge [of firstChange "firstChange + 1" operations ctx firstChange] x by simp
  then show ?thesis using assms x
    by (simp add: hunkWindow_def Let_def) arith
qed

lemma hunkWindow_fields [simp]:
  "wFirst (hunkWindow operations ctx firstChange) = firstChange"
  by (simp add: hunkWindow_def Let_def case_prod_beta)

text \<open>
  The outer loop, twice: \<open>hunksFrom\<close> pushes the hunks as the source does, \<open>hunkWindows\<close>
  records the bounds of each round instead. \<open>hunksFrom_windows\<close> below relates the two.
\<close>

function hunkWindows :: "lineOp list \<Rightarrow> nat \<Rightarrow> nat \<Rightarrow> window list" where
  "hunkWindows operations context cursor =
     (if cursor < length operations then
        (case findFirstChange operations cursor of
           None \<Rightarrow> []
         | Some firstChange \<Rightarrow>
             (let w = hunkWindow operations context firstChange
              in w # hunkWindows operations context (wEnd w + 1)))
      else [])"
  by pat_completeness auto
termination
proof (relation "measure (\<lambda>(operations, ctx, cursor). length operations - cursor)", goal_cases)
  case 1
  show ?case by simp
next
  case (2 operations ctx cursor firstChange w)
  then have "cursor \<le> firstChange" "firstChange < length operations"
    by (auto dest: findFirstChange_ge findFirstChange_less)
  then have "cursor \<le> wEnd w"
    using hunkWindow_end_ge [of firstChange operations ctx] 2 by simp
  then show ?case using 2 by simp
qed

function hunksFrom :: "lineOp list \<Rightarrow> nat \<Rightarrow> nat \<Rightarrow> hunk list" where
  "hunksFrom operations context cursor =
     (if cursor < length operations then
        (case findFirstChange operations cursor of
           None \<Rightarrow> []
         | Some firstChange \<Rightarrow>
             (let w = hunkWindow operations context firstChange
              in makeHunk (slice operations (wStart w) (wEnd w + 1))
                   # hunksFrom operations context (wEnd w + 1)))
      else [])"
  by pat_completeness auto
termination
proof (relation "measure (\<lambda>(operations, ctx, cursor). length operations - cursor)", goal_cases)
  case 1
  show ?case by simp
next
  case (2 operations ctx cursor firstChange w)
  then have "cursor \<le> firstChange" "firstChange < length operations"
    by (auto dest: findFirstChange_ge findFirstChange_less)
  then have "cursor \<le> wEnd w"
    using hunkWindow_end_ge [of firstChange operations ctx] 2 by simp
  then show ?case using 2 by simp
qed

declare hunkWindows.simps [simp del] hunksFrom.simps [simp del]

definition buildDiffHunks :: "lineOp list \<Rightarrow> nat \<Rightarrow> hunk list" where
  "buildDiffHunks operations context = hunksFrom operations context 0"


text \<open>Vocabulary for the properties of the hunks.\<close>

definition isChange :: "lineOp list \<Rightarrow> nat \<Rightarrow> bool" where
  "isChange operations i = (i < length operations \<and> optype (operations ! i) \<noteq> OpEqual)"

definition validWindow :: "lineOp list \<Rightarrow> nat \<Rightarrow> window \<Rightarrow> bool" where
  "validWindow operations context w =
     (wFirst w \<le> wLast w \<and> isChange operations (wFirst w) \<and> isChange operations (wLast w) \<and>
      wStart w = wFirst w - context \<and>
      wEnd w = min (length operations - 1) (wLast w + context) \<and>
      (\<forall>k. wLast w < k \<and> k \<le> wLast w + context + 1 \<and> k < length operations
           \<longrightarrow> optype (operations ! k) = OpEqual) \<and>
      (\<forall>k. wFirst w \<le> k \<and> k < wLast w
           \<longrightarrow> (\<exists>c. k < c \<and> c \<le> k + context + 1 \<and> c \<le> wLast w \<and> isChange operations c)))"

definition extent :: "lineOp list \<Rightarrow> nat \<Rightarrow> nat \<Rightarrow> nat \<Rightarrow> nat \<Rightarrow> nat \<Rightarrow> bool" where
  "extent operations ctx l e e' l' =
    (l \<le> l' \<and> l' \<le> e' \<and> e \<le> e' \<and> e' < length operations \<and>
     (l' = l \<or> isChange operations l') \<and>
     e' = min (length operations - 1) (l' + ctx) \<and>
     (\<forall>k. l' < k \<and> k \<le> l' + ctx + 1 \<and> k < length operations
          \<longrightarrow> optype (operations ! k) = OpEqual) \<and>
     (\<forall>k. l \<le> k \<and> k < l'
          \<longrightarrow> (\<exists>c. k < c \<and> c \<le> k + ctx + 1 \<and> c \<le> l' \<and> isChange operations c)))"

definition consecutiveChanges :: "lineOp list \<Rightarrow> nat \<Rightarrow> nat \<Rightarrow> bool" where
  "consecutiveChanges operations i j =
     (i < j \<and> isChange operations i \<and> isChange operations j \<and>
      list_all (\<lambda>k. optype (operations ! k) = OpEqual) [i + 1 ..< j])"

definition windowBefore :: "window \<Rightarrow> window \<Rightarrow> bool" where
  "windowBefore v w = (wStart v < wStart w \<and> wLast v < wFirst w \<and> wEnd v < wEnd w)"

definition hunkOfWindow :: "lineOp list \<Rightarrow> window \<Rightarrow> hunk" where
  "hunkOfWindow operations w = makeHunk (slice operations (wStart w) (wEnd w + 1))"

section \<open>String operations of the host language\<close>

text \<open>
  \<^verbatim>\<open>text.split(/\r?\n/)\<close>: a line ends at a line feed, or at a carriage return that a line
  feed follows; a carriage return alone stays in its line. The result is never empty: the
  empty string splits into one empty line. \<open>prependChar\<close> puts a character in front of the
  first line of a split.
\<close>

fun prependChar :: "char \<Rightarrow> string list \<Rightarrow> string list" where
  "prependChar c [] = [[c]]"
| "prependChar c (l # ls) = (c # l) # ls"

fun splitLines :: "string \<Rightarrow> string list" where
  "splitLines [] = [[]]"
| "splitLines (c # cs) =
     (if c = CHR 0x0A then [] # splitLines cs
      else if c = CHR 0x0D then
        (case cs of
           [] \<Rightarrow> prependChar c (splitLines cs)
         | d # ds \<Rightarrow> if d = CHR 0x0A then [] # splitLines ds else prependChar c (splitLines cs))
      else prependChar c (splitLines cs))"

text \<open>\<^verbatim>\<open>output.join("\n")\<close>.\<close>

fun joinLines :: "string list \<Rightarrow> string" where
  "joinLines [] = []"
| "joinLines [l] = l"
| "joinLines (l # ls) = l @ CHR 0x0A # joinLines ls"

text \<open>
  \<^verbatim>\<open>s.startsWith(p)\<close>, \<^verbatim>\<open>s.includes(sub)\<close> (some position of \<open>s\<close> starts with \<open>sub\<close>) and
  \<^verbatim>\<open>s.trim()\<close>, which drops the whitespace at both ends; the characters it drops are those
  of \<open>isWhitespace\<close>.
\<close>

definition startsWith :: "string \<Rightarrow> string \<Rightarrow> bool" where
  "startsWith s p = (take (length p) s = p)"

definition strIncludes :: "string \<Rightarrow> string \<Rightarrow> bool" where
  "strIncludes s sub = list_ex (\<lambda>i. take (length sub) (drop i s) = sub) [0 ..< length s + 1]"

definition trim :: "string \<Rightarrow> string" where
  "trim s = rev (dropWhile isWhitespace (rev (dropWhile isWhitespace s)))"

text \<open>
  \<^verbatim>\<open>s.toLowerCase()\<close> on the code units that a \<^typ>\<open>char\<close> holds: the letters \<open>A\<close> to \<open>Z\<close> and
  the accented capitals 192 to 222 (215, the multiplication sign, apart) move up by 32.
\<close>

definition toLowerChar :: "char \<Rightarrow> char" where
  "toLowerChar c =
     (let n = (of_char c :: nat)
      in if (65 \<le> n \<and> n \<le> 90) \<or> (192 \<le> n \<and> n \<le> 222 \<and> n \<noteq> 215)
         then char_of (n + 32) else c)"

definition toLowerCase :: "string \<Rightarrow> string" where
  "toLowerCase s = map toLowerChar s"

section \<open>Patch normalisation: \<open>convertApplyPatchToUnifiedDiff\<close>\<close>

text \<open>
  The variables that the loop over the patch lines updates, as one state: the array \<open>output\<close>
  (named \<open>outputLines\<close> here), the three header indices with \<open>-1\<close> for none, the two paths
  and the flag \<open>hasDiffRows\<close>.
\<close>

datatype fileMode = ModeUpdate | ModeAdd | ModeDelete

record patchState =
  outputLines :: "string list"
  headerDiffIndex :: int
  headerOldIndex :: int
  headerNewIndex :: int
  oldPath :: string
  newPath :: string
  hasDiffRows :: bool

definition initialPatchState :: patchState where
  "initialPatchState =
     \<lparr>outputLines = [], headerDiffIndex = - 1, headerOldIndex = - 1, headerNewIndex = - 1,
      oldPath = [], newPath = [], hasDiffRows = False\<rparr>"

text \<open>
  The assignment \<^verbatim>\<open>output[i] = v\<close>: inside the array it replaces the element, beyond its end the
  array grows, and the holes left in between join as empty strings.
\<close>

definition arraySet :: "string list \<Rightarrow> nat \<Rightarrow> string \<Rightarrow> string list" where
  "arraySet xs i v =
     (if i < length xs then xs[i := v] else xs @ replicate (i - length xs) [] @ [v])"

text \<open>
  The closure \<open>startFile\<close>: a blank path changes nothing; otherwise the paths are set and the
  three header lines pushed, their indices kept. \<open>moveTo\<close> is the branch of the loop for a
  \<^verbatim>\<open>*** Move to: \<close> line.
\<close>

definition startFile :: "fileMode \<Rightarrow> string \<Rightarrow> patchState \<Rightarrow> patchState" where
  "startFile mode path st =
     (let normalized = trim path
      in if normalized = [] then st
         else
           (let oldPath' = (if mode = ModeAdd then ''/dev/null'' else ''a/'' @ normalized);
                newPath' = (if mode = ModeDelete then ''/dev/null'' else ''b/'' @ normalized);
                n = length (outputLines st)
            in st\<lparr>oldPath := oldPath', newPath := newPath',
                  headerDiffIndex := int n,
                  headerOldIndex := int n + 1,
                  headerNewIndex := int n + 2,
                  outputLines := outputLines st @
                    [''diff --git '' @ oldPath' @ '' '' @ newPath',
                     ''--- '' @ oldPath',
                     ''+++ '' @ newPath']\<rparr>))"

definition moveTo :: "string \<Rightarrow> patchState \<Rightarrow> patchState" where
  "moveTo ln st =
     (let destination = trim (drop (length ''*** Move to: '') ln)
      in if destination = [] then st
         else
           (let newPath' = ''b/'' @ destination;
                output1 = (if headerDiffIndex st \<ge> 0
                           then arraySet (outputLines st) (nat (headerDiffIndex st))
                                  (''diff --git '' @ oldPath st @ '' '' @ newPath')
                           else outputLines st);
                output2 = (if headerNewIndex st \<ge> 0
                           then arraySet output1 (nat (headerNewIndex st)) (''+++ '' @ newPath')
                           else output1)
            in st\<lparr>newPath := newPath', outputLines := output2\<rparr>))"

text \<open>
  One round of the loop over the lines, with the branches in the order of the source; the last
  branch pushes a line that starts with \<open>@@\<close>, \<open>+\<close>, \<open>-\<close> or a space, and any other line
  is dropped. \<open>runPatch\<close> is the whole loop.
\<close>

definition isHunkBodyLine :: "string \<Rightarrow> bool" where
  "isHunkBodyLine ln =
     (startsWith ln ''@@'' \<or> startsWith ln ''+'' \<or> startsWith ln ''-'' \<or> startsWith ln '' '')"

definition processLine :: "patchState \<Rightarrow> string \<Rightarrow> patchState" where
  "processLine st ln =
     (if ln = ''*** Begin Patch'' \<or> ln = ''*** End Patch'' \<or> ln = ''*** End of File'' then st
      else if startsWith ln ''*** Update File: ''
        then startFile ModeUpdate (drop (length ''*** Update File: '') ln) st
      else if startsWith ln ''*** Add File: ''
        then startFile ModeAdd (drop (length ''*** Add File: '') ln) st
      else if startsWith ln ''*** Delete File: ''
        then startFile ModeDelete (drop (length ''*** Delete File: '') ln) st
      else if startsWith ln ''*** Move to: '' then moveTo ln st
      else if isHunkBodyLine ln then st\<lparr>outputLines := outputLines st @ [ln], hasDiffRows := True\<rparr>
      else st)"

definition runPatch :: "string \<Rightarrow> patchState" where
  "runPatch patchText = foldl processLine initialPatchState (splitLines patchText)"

text \<open>
  The argument of \<open>convertApplyPatchToUnifiedDiff\<close> and of \<open>extractApplyPatchFirstPath\<close> is
  \<^verbatim>\<open>string | null\<close>: \<open>None\<close> is \<open>null\<close>, and \<^verbatim>\<open>!patchText\<close> holds for \<open>null\<close> and for the empty
  string. Neither function has a path that throws, so both are total functions here.
\<close>

definition convertApplyPatchToUnifiedDiff :: "string option \<Rightarrow> string option" where
  "convertApplyPatchToUnifiedDiff patchText =
     (case patchText of
        None \<Rightarrow> None
      | Some t \<Rightarrow>
          if t = [] then None
          else
            (let st = runPatch t
             in if hasDiffRows st \<and> length (outputLines st) > 0
                then Some (joinLines (outputLines st)) else None))"

text \<open>
  \<^verbatim>\<open>s || null\<close> on a string, and the loop of \<open>extractApplyPatchFirstPath\<close>, which returns at
  the first file directive, also when its path is blank.
\<close>

definition nonEmpty :: "string \<Rightarrow> string option" where
  "nonEmpty s = (if s = [] then None else Some s)"

fun firstPathIn :: "string list \<Rightarrow> string option" where
  "firstPathIn [] = None"
| "firstPathIn (ln # rest) =
     (if startsWith ln ''*** Update File: ''
        then nonEmpty (trim (drop (length ''*** Update File: '') ln))
      else if startsWith ln ''*** Add File: ''
        then nonEmpty (trim (drop (length ''*** Add File: '') ln))
      else if startsWith ln ''*** Delete File: ''
        then nonEmpty (trim (drop (length ''*** Delete File: '') ln))
      else firstPathIn rest)"

definition extractApplyPatchFirstPath :: "string option \<Rightarrow> string option" where
  "extractApplyPatchFirstPath patchText =
     (case patchText of
        None \<Rightarrow> None
      | Some t \<Rightarrow> if t = [] then None else firstPathIn (splitLines t))"

section \<open>Tool payloads: \<open>parseToolEditPayload\<close>\<close>

text \<open>
  A parsed JSON value. An object is the list of its members in the order of the text; reading
  a property takes the last member of that name, as \<^verbatim>\<open>JSON.parse\<close> keeps the last of two
  members with one name, and gives \<open>None\<close> (the source's \<open>undefined\<close>) when there is none.
  The value of a number is never looked at.
\<close>

datatype json =
    JNull
  | JBool bool
  | JNumber int
  | JString string
  | JArray "json list"
  | JObject "(string \<times> json) list"

type_synonym jsonRecord = "(string \<times> json) list"

definition getProp :: "jsonRecord \<Rightarrow> string \<Rightarrow> json option" where
  "getProp r key = map_of (rev r) key"

text \<open>
  The three coercions. \<open>asObject\<close> accepts objects only (not \<open>null\<close>, not arrays), \<open>asString\<close>
  any string, \<open>asNonEmptyString\<close> a string that is not blank, which it returns trimmed.
\<close>

definition asObject :: "json option \<Rightarrow> jsonRecord option" where
  "asObject v = (case v of Some (JObject r) \<Rightarrow> Some r | _ \<Rightarrow> None)"

definition asString :: "json option \<Rightarrow> string option" where
  "asString v = (case v of Some (JString s) \<Rightarrow> Some s | _ \<Rightarrow> None)"

definition asNonEmptyString :: "json option \<Rightarrow> string option" where
  "asNonEmptyString v =
     (case v of
        Some (JString s) \<Rightarrow> (let trimmed = trim s in if length trimmed > 0 then Some trimmed else None)
      | _ \<Rightarrow> None)"

text \<open>
  A chain \<^verbatim>\<open>a ?? b ?? c ?? null\<close> is \<open>firstDefined [a, b, c]\<close>: the first operand that is not
  \<open>null\<close>. \<open>joinWith\<close> is \<^verbatim>\<open>xs.join(sep)\<close>.
\<close>

fun firstDefined :: "'a option list \<Rightarrow> 'a option" where
  "firstDefined [] = None"
| "firstDefined (None # rest) = firstDefined rest"
| "firstDefined (Some x # rest) = Some x"

definition joinWith :: "string \<Rightarrow> string list \<Rightarrow> string" where
  "joinWith sep xs = (case xs of [] \<Rightarrow> [] | x # rest \<Rightarrow> x @ concat (map (\<lambda>y. sep @ y) rest))"

definition looksLikeApplyPatchPayload :: "jsonRecord \<Rightarrow> jsonRecord \<Rightarrow> bool" where
  "looksLikeApplyPatchPayload parsed payload =
     (let normalized =
            toLowerCase (joinWith '' ''
              (List.map_filter id
                 [asNonEmptyString (getProp parsed ''name''),
                  asNonEmptyString (getProp parsed ''tool''),
                  asNonEmptyString (getProp parsed ''type''),
                  asNonEmptyString (getProp payload ''operation''),
                  asNonEmptyString (getProp payload ''mode'')]))
      in if strIncludes normalized ''apply_patch'' then True
         else
           (case asNonEmptyString (getProp parsed ''input'') of
              Some s \<Rightarrow> strIncludes s ''*** Begin Patch'' | None \<Rightarrow> False) \<or>
           (case asNonEmptyString (getProp payload ''input'') of
              Some s \<Rightarrow> strIncludes s ''*** Begin Patch'' | None \<Rightarrow> False) \<or>
           (case asNonEmptyString (getProp parsed ''arguments'') of
              Some s \<Rightarrow> strIncludes s ''*** Begin Patch'' | None \<Rightarrow> False))"

text \<open>
  \<open>parseToolEditPayload\<close> starts from the result of \<^verbatim>\<open>JSON.parse\<close>, \<open>None\<close> when it throws;
  \<open>tryParseJsonRecord\<close> is then \<open>asObject\<close>.
\<close>

record editPayload =
  filePath :: "string option"
  oldText :: "string option"
  newText :: "string option"
  diff :: "string option"

definition parseToolEditPayload :: "json option \<Rightarrow> editPayload option" where
  "parseToolEditPayload parseResult =
     (case asObject parseResult of
        None \<Rightarrow> None
      | Some parsed \<Rightarrow>
          (let input = asObject (getProp parsed ''input'');
               args = asObject (getProp parsed ''args'');
               payload = (case firstDefined [input, args] of Some r \<Rightarrow> r | None \<Rightarrow> parsed);
               filePath0 = firstDefined
                 [asNonEmptyString (getProp payload ''file_path''),
                  asNonEmptyString (getProp payload ''path''),
                  asNonEmptyString (getProp payload ''file''),
                  asNonEmptyString (getProp parsed ''file_path''),
                  asNonEmptyString (getProp parsed ''path'')];
               oldText0 = firstDefined
                 [asString (getProp payload ''old_string''),
                  asString (getProp payload ''oldText''),
                  asString (getProp payload ''before''),
                  asString (getProp parsed ''old_string'')];
               newText0 = firstDefined
                 [asString (getProp payload ''new_string''),
                  asString (getProp payload ''newText''),
                  asString (getProp payload ''after''),
                  asString (getProp payload ''content''),
                  asString (getProp payload ''text''),
                  asString (getProp payload ''write_content''),
                  asString (getProp payload ''new_content''),
                  asString (getProp parsed ''new_string'')];
               diff0 = firstDefined
                 [asNonEmptyString (getProp payload ''diff''),
                  asNonEmptyString (getProp payload ''patch''),
                  asNonEmptyString (getProp parsed ''diff''),
                  asNonEmptyString (getProp parsed ''patch'')];
               applyPatchInput = firstDefined
                 [asNonEmptyString (getProp parsed ''input''),
                  asNonEmptyString (getProp payload ''input''),
                  asNonEmptyString (getProp parsed ''arguments'')];
               normalizedDiff = firstDefined
                 [diff0,
                  if looksLikeApplyPatchPayload parsed payload
                  then convertApplyPatchToUnifiedDiff applyPatchInput else None];
               normalizedFilePath = firstDefined
                 [filePath0, extractApplyPatchFirstPath applyPatchInput]
           in Some \<lparr>filePath = normalizedFilePath, oldText = oldText0, newText = newText0,
                     diff = normalizedDiff\<rparr>))"

text \<open>
  The source has no function of its own for the normaliser: the diff text and the primary path
  are the fields \<open>diff\<close> and \<open>filePath\<close> that \<open>parseToolEditPayload\<close> computes. \<open>normalizePatch\<close>
  reads them off for the record \<^verbatim>\<open>{"name": operationHint, "input": rawText}\<close>.
\<close>

definition normalizePatch :: "string \<Rightarrow> string \<Rightarrow> string option \<times> string option" where
  "normalizePatch rawText operationHint =
     (case parseToolEditPayload
             (Some (JObject [(''name'', JString operationHint), (''input'', JString rawText)])) of
        Some p \<Rightarrow> (diff p, filePath p)
      | None \<Rightarrow> (None, None))"
text \<open>
  Vocabulary for the properties: the directive line of a mode, the lines that name a file,
  when a text is taken for a patch (by the hint or by the marker), the payload record, and the
  alias chains with what it means that an alias is bound to a string.
\<close>

definition headerLine :: "fileMode \<Rightarrow> string \<Rightarrow> string" where
  "headerLine mode path =
     (case mode of
        ModeUpdate \<Rightarrow> ''*** Update File: '' @ path
      | ModeAdd \<Rightarrow> ''*** Add File: '' @ path
      | ModeDelete \<Rightarrow> ''*** Delete File: '' @ path)"



definition payloadOf :: "jsonRecord \<Rightarrow> jsonRecord" where
  "payloadOf parsed =
     (case firstDefined [asObject (getProp parsed ''input''), asObject (getProp parsed ''args'')] of
        Some r \<Rightarrow> r
      | None \<Rightarrow> parsed)"

definition newTextAliases :: "string list" where
  "newTextAliases =
     [''new_string'', ''newText'', ''after'', ''content'', ''text'', ''write_content'',
      ''new_content'']"

definition oldTextAliases :: "string list" where
  "oldTextAliases = [''old_string'', ''oldText'', ''before'']"

definition filePathAliases :: "string list" where
  "filePathAliases = [''file_path'', ''path'', ''file'']"

definition diffAliases :: "string list" where
  "diffAliases = [''diff'', ''patch'']"

definition isStringAt :: "jsonRecord \<Rightarrow> string \<Rightarrow> bool" where
  "isStringAt r key = (case getProp r key of Some (JString s) \<Rightarrow> True | _ \<Rightarrow> False)"

definition isNonBlankStringAt :: "jsonRecord \<Rightarrow> string \<Rightarrow> bool" where
  "isNonBlankStringAt r key =
     (case getProp r key of Some (JString s) \<Rightarrow> trim s \<noteq> [] | _ \<Rightarrow> False)"

section \<open>Diff rows: \<open>DiffBlock\<close>\<close>

text \<open>
  The row classifier is the component \<open>DiffBlock\<close>; the model keeps, for each row it renders,
  the class, the two line-number cells (\<open>None\<close> for a blank cell) and the code cell, and leaves
  out the keys of the elements.
\<close>

definition isAddedDiffLine :: "string \<Rightarrow> bool" where
  "isAddedDiffLine ln = (startsWith ln ''+'' \<and> \<not> startsWith ln ''+++ '')"

definition isRemovedDiffLine :: "string \<Rightarrow> bool" where
  "isRemovedDiffLine ln = (startsWith ln ''-'' \<and> \<not> startsWith ln ''--- '')"

text \<open>
  \<open>parseDiffHunkStart\<close> searches the line for
  \<^verbatim>\<open>@@ -(\d+)(?:,\d+)? \+(\d+)(?:,\d+)? @@\<close>. After a run of digits the expression goes on
  with a comma or a space, so only the longest run of digits can match, and a comma is part of
  a count only when a digit follows it: matching at one position is deterministic
  (\<open>matchHunkStartAt\<close>), and the search takes the first position that matches.
  \<^verbatim>\<open>Number\<close> of the digits is their decimal value; it is finite below \<open>2^1024 - 2^970\<close>, where
  rounding reaches infinity. The model keeps the exact value, which is what the source holds
  up to \<open>2^53\<close>.
\<close>

definition isDigit :: "char \<Rightarrow> bool" where
  "isDigit c = (48 \<le> (of_char c :: nat) \<and> (of_char c :: nat) \<le> 57)"

definition decimalValue :: "string \<Rightarrow> nat" where
  "decimalValue ds = foldl (\<lambda>acc c. 10 * acc + ((of_char c :: nat) - 48)) 0 ds"

definition skipCount :: "string \<Rightarrow> string" where
  "skipCount s =
     (case s of
        c # rest \<Rightarrow>
          if c = CHR '','' \<and> takeWhile isDigit rest \<noteq> [] then dropWhile isDigit rest else s
      | [] \<Rightarrow> s)"

definition matchHunkStartAt :: "string \<Rightarrow> (string \<times> string) option" where
  "matchHunkStartAt s =
     (if startsWith s ''@@ -'' then
        (let s1 = drop (length ''@@ -'') s;
             d1 = takeWhile isDigit s1;
             s2 = skipCount (dropWhile isDigit s1)
         in if d1 \<noteq> [] \<and> startsWith s2 '' +'' then
              (let s3 = drop (length '' +'') s2;
                   d2 = takeWhile isDigit s3;
                   s4 = skipCount (dropWhile isDigit s3)
               in if d2 \<noteq> [] \<and> startsWith s4 '' @@'' then Some (d1, d2) else None)
            else None)
      else None)"

fun searchHunkStart :: "string \<Rightarrow> (string \<times> string) option" where
  "searchHunkStart [] = matchHunkStartAt []"
| "searchHunkStart (c # cs) =
     (case matchHunkStartAt (c # cs) of
        Some m \<Rightarrow> Some m
      | None \<Rightarrow> searchHunkStart cs)"

definition isFiniteNumber :: "nat \<Rightarrow> bool" where
  "isFiniteNumber v = (v < 2 ^ 1024 - 2 ^ 970)"

definition parseDiffHunkStart :: "string \<Rightarrow> (nat \<times> nat) option" where
  "parseDiffHunkStart ln =
     (case searchHunkStart ln of
        None \<Rightarrow> None
      | Some (d1, d2) \<Rightarrow>
          (let oldLn = decimalValue d1; newLn = decimalValue d2
           in if \<not> isFiniteNumber oldLn \<or> \<not> isFiniteNumber newLn then None
              else Some (oldLn, newLn)))"

text \<open>
  One round of the loop of \<open>DiffBlock\<close> on the line at \<open>index\<close> and the line after it (the
  empty string past the end): the rows pushed, the step of the index and the two cursors
  after the round. The branches are in the order of the source.
\<close>

datatype rowKind = RowMeta | RowRemove | RowAdd | RowContext

datatype rowCode = Plain string | Inline "inlinePart list"

record diffRow =
  rowClass :: rowKind
  lnOld :: "nat option"
  lnNew :: "nat option"
  diffCode :: rowCode

definition metaRow :: "string \<Rightarrow> diffRow" where
  "metaRow ln = \<lparr>rowClass = RowMeta, lnOld = None, lnNew = None, diffCode = Plain ln\<rparr>"

definition rowStep :: "string \<Rightarrow> string \<Rightarrow> nat \<Rightarrow> nat \<Rightarrow> diffRow list \<times> nat \<times> nat \<times> nat" where
  "rowStep ln nextLine oldLn newLn =
     (if startsWith ln ''@@'' then
        (case parseDiffHunkStart ln of
           Some (hunkOld, hunkNew) \<Rightarrow> ([metaRow ln], 1, hunkOld, hunkNew)
         | None \<Rightarrow> ([metaRow ln], 1, oldLn, newLn))
      else if isRemovedDiffLine ln \<and> isAddedDiffLine nextLine then
        (let inlineDiff = diffInlineSegments (drop 1 ln) (drop 1 nextLine)
         in ([\<lparr>rowClass = RowRemove, lnOld = Some oldLn, lnNew = None,
                 diffCode = Inline (left inlineDiff)\<rparr>,
              \<lparr>rowClass = RowAdd, lnOld = None, lnNew = Some newLn,
                 diffCode = Inline (right inlineDiff)\<rparr>],
             2, oldLn + 1, newLn + 1))
      else if isAddedDiffLine ln then
        ([\<lparr>rowClass = RowAdd, lnOld = None, lnNew = Some newLn, diffCode = Plain (drop 1 ln)\<rparr>],
         1, oldLn, newLn + 1)
      else if isRemovedDiffLine ln then
        ([\<lparr>rowClass = RowRemove, lnOld = Some oldLn, lnNew = None, diffCode = Plain (drop 1 ln)\<rparr>],
         1, oldLn + 1, newLn)
      else if startsWith ln ''diff --git'' \<or> startsWith ln ''index '' \<or>
              startsWith ln ''--- '' \<or> startsWith ln ''+++ '' then
        ([metaRow ln], 1, oldLn, newLn)
      else
        ([\<lparr>rowClass = RowContext, lnOld = Some oldLn, lnNew = Some newLn,
            diffCode = Plain (if startsWith ln '' '' then drop 1 ln else ln)\<rparr>],
         1, oldLn + 1, newLn + 1))"

text \<open>\<^verbatim>\<open>lines[i] ?? ""\<close>, and the loop itself.\<close>

definition lineAt :: "string list \<Rightarrow> nat \<Rightarrow> string" where
  "lineAt lns i = (if i < length lns then lns ! i else [])"

lemma rowStep_advances: "0 < fst (snd (rowStep ln nextLine oldLn newLn))"
  by (simp add: rowStep_def Let_def split: option.splits prod.splits)

function diffRowsFrom :: "string list \<Rightarrow> nat \<Rightarrow> nat \<Rightarrow> nat \<Rightarrow> diffRow list" where
  "diffRowsFrom lns index oldLn newLn =
     (if index < length lns then
        (case rowStep (lineAt lns index) (lineAt lns (index + 1)) oldLn newLn of
           (rows, step, oldLn', newLn') \<Rightarrow> rows @ diffRowsFrom lns (index + step) oldLn' newLn')
      else [])"
  by pat_completeness auto
termination
proof (relation "measure (\<lambda>(lns, index, oldLn, newLn). length lns - index)", goal_cases)
  case 1
  show ?case by simp
next
  case (2 lns index oldLn newLn rows rest step rest' oldLn' newLn')
  have "0 < fst (snd (rowStep (lineAt lns index) (lineAt lns (index + 1)) oldLn newLn))"
    by (rule rowStep_advances)
  then have "0 < step"
    using 2(2,3) by (metis fst_conv snd_conv)
  with 2(1) show ?case by simp
qed

declare diffRowsFrom.simps [simp del]

text \<open>Both cursors start at 1.\<close>

definition DiffBlock :: "string \<Rightarrow> diffRow list" where
  "DiffBlock codeValue = diffRowsFrom (splitLines codeValue) 0 1 1"

text \<open>The detector that decides whether a text is shown by \<open>DiffBlock\<close>.\<close>

definition isLikelyDiff :: "string \<Rightarrow> string \<Rightarrow> bool" where
  "isLikelyDiff language codeValue =
     (if strIncludes language ''diff'' \<or> language = ''patch'' then True
      else
        (let lns = filter (\<lambda>ln. length ln > 0) (splitLines codeValue)
         in if length lns = 0 then False
            else if list_ex (\<lambda>ln. startsWith ln ''@@'' \<or> startsWith ln ''diff --git'' \<or>
                                  startsWith ln ''--- '' \<or> startsWith ln ''+++ '') lns
              then True
            else
              (let addedLines = length (filter isAddedDiffLine lns);
                   removedLines = length (filter isRemovedDiffLine lns);
                   contextLines = length (filter (\<lambda>ln. startsWith ln '' '') lns)
               in addedLines > 0 \<and> removedLines > 0 \<and>
                  addedLines + removedLines + contextLines \<ge> 4)))"


text \<open>
  Vocabulary for the properties: the old and the new line numbers of the rows that carry one,
  in order, and the rule that tells from the class of a row which numbers it carries.
\<close>

definition oldNumbers :: "diffRow list \<Rightarrow> nat list" where
  "oldNumbers rows = List.map_filter lnOld rows"

definition newNumbers :: "diffRow list \<Rightarrow> nat list" where
  "newNumbers rows = List.map_filter lnNew rows"

definition numbersMatchClass :: "diffRow \<Rightarrow> bool" where
  "numbersMatchClass r =
     ((lnOld r \<noteq> None) = (rowClass r = RowRemove \<or> rowClass r = RowContext) \<and>
      (lnNew r \<noteq> None) = (rowClass r = RowAdd \<or> rowClass r = RowContext))"

section \<open>Properties of the line alignment\<close>

subsection \<open>The matrix holds the lengths of the longest common subsequences\<close>

lemma lcsLen_Nil2 [simp]: "lcsLen xs [] = 0"
  by (cases xs) auto

lemma shaped_setCell: "shaped m n k \<Longrightarrow> shaped (setCell m i j v) n k"
proof -
  assume s: "shaped m n k"
  have "length ((m[i := (m ! i)[j := v]]) ! a) = k + 1" if "a < length m" for a
    using that s by (cases "a = i") (simp_all add: shaped_def)
  then show ?thesis using s by (simp add: shaped_def setCell_def)
qed

lemma cell_setCell:
  "shaped m n k \<Longrightarrow> i \<le> n \<Longrightarrow> j \<le> k \<Longrightarrow>
   cell (setCell m i j v) i' j' = (if i' = i \<and> j' = j then v else cell m i' j')"
  by (auto simp: shaped_def setCell_def cell_def nth_list_update)

lemma filledRowD:
  "filledRow old new m i j \<Longrightarrow> i' \<le> length old \<Longrightarrow> j' \<le> length new \<Longrightarrow>
   i < i' \<or> (i' = i \<and> j \<le> j') \<or> j' = length new \<Longrightarrow>
   cell m i' j' = lcsLen (drop i' old) (drop j' new)"
  unfolding filledRow_def by blast

lemma filledRow_shaped: "filledRow old new m i j \<Longrightarrow> shaped m (length old) (length new)"
  unfolding filledRow_def by blast

lemma lcsLen_drop:
  "i < length old \<Longrightarrow> j < length new \<Longrightarrow>
   lcsLen (drop i old) (drop j new) =
     (if old ! i = new ! j then lcsLen (drop (Suc i) old) (drop (Suc j) new) + 1
      else max (lcsLen (drop (Suc i) old) (drop j new)) (lcsLen (drop i old) (drop (Suc j) new)))"
  by (simp add: Cons_nth_drop_Suc [symmetric])

lemma fillRow_filled:
  "filledRow old new m i j \<Longrightarrow> i < length old \<Longrightarrow> j \<le> length new \<Longrightarrow>
   filledRow old new (fillRow old new i j m) i 0"
proof (induction j arbitrary: m)
  case 0
  then show ?case by simp
next
  case (Suc j)
  let ?v = "if old ! i = new ! j then cell m (i + 1) (j + 1) + 1
            else max (cell m (i + 1) j) (cell m i (j + 1))"
  have sh: "shaped m (length old) (length new)"
    using Suc.prems(1) by (rule filledRow_shaped)
  have fl: "\<And>i' j'. i' \<le> length old \<Longrightarrow> j' \<le> length new \<Longrightarrow>
         (i < i' \<or> (i' = i \<and> Suc j \<le> j') \<or> j' = length new) \<Longrightarrow>
         cell m i' j' = lcsLen (drop i' old) (drop j' new)"
    using Suc.prems(1) by (rule filledRowD)
  have v: "?v = lcsLen (drop i old) (drop j new)"
    using Suc.prems(2,3) fl [of "i + 1" "j + 1"] fl [of "i + 1" j] fl [of i "j + 1"]
    by (simp add: lcsLen_drop)
  have "filledRow old new (setCell m i j ?v) i j"
    unfolding filledRow_def
  proof (intro conjI allI impI)
    show "shaped (setCell m i j ?v) (length old) (length new)"
      using sh by (rule shaped_setCell)
  next
    fix i' j'
    assume a: "i' \<le> length old" "j' \<le> length new"
      "i < i' \<or> (i' = i \<and> j \<le> j') \<or> j' = length new"
    have c: "cell (setCell m i j ?v) i' j' = (if i' = i \<and> j' = j then ?v else cell m i' j')"
      using sh Suc.prems(2,3) by (intro cell_setCell) auto
    show "cell (setCell m i j ?v) i' j' = lcsLen (drop i' old) (drop j' new)"
    proof (cases "i' = i \<and> j' = j")
      case True
      then show ?thesis using c v by simp
    next
      case False
      then have "i < i' \<or> (i' = i \<and> Suc j \<le> j') \<or> j' = length new"
        using a(3) by auto
      then show ?thesis using c False fl [OF a(1,2)] by simp
    qed
  qed
  from Suc.IH [OF this] Suc.prems(2,3) show ?case by simp
qed

lemma filledAbove_Row:
  assumes "filledAbove old new m (Suc k)"
  shows "filledRow old new m k (length new)"
  unfolding filledRow_def
proof (intro conjI allI impI)
  show "shaped m (length old) (length new)"
    using assms unfolding filledAbove_def by blast
next
  fix i' j'
  assume a: "i' \<le> length old" "j' \<le> length new"
    "k < i' \<or> (i' = k \<and> length new \<le> j') \<or> j' = length new"
  then have "Suc k \<le> i' \<or> j' = length new" by auto
  with a(1,2) assms show "cell m i' j' = lcsLen (drop i' old) (drop j' new)"
    unfolding filledAbove_def by blast
qed

lemma filledRow_Above:
  assumes "filledRow old new m k 0"
  shows "filledAbove old new m k"
  unfolding filledAbove_def
proof (intro conjI allI impI)
  show "shaped m (length old) (length new)"
    using assms by (rule filledRow_shaped)
next
  fix i' j'
  assume a: "i' \<le> length old" "j' \<le> length new" "k \<le> i' \<or> j' = length new"
  then have "k < i' \<or> (i' = k \<and> 0 \<le> j') \<or> j' = length new" by auto
  with assms a(1,2) show "cell m i' j' = lcsLen (drop i' old) (drop j' new)"
    by (rule filledRowD)
qed

lemma fillRows_filled:
  "filledAbove old new m k \<Longrightarrow> k \<le> length old \<Longrightarrow>
   filledAbove old new (fillRows old new k m) 0"
proof (induction k arbitrary: m)
  case 0
  then show ?case by simp
next
  case (Suc k)
  have "filledRow old new m k (length new)"
    using Suc.prems(1) by (rule filledAbove_Row)
  then have "filledRow old new (fillRow old new k (length new) m) k 0"
    using Suc.prems(2) by (intro fillRow_filled) simp_all
  then have "filledAbove old new (fillRow old new k (length new) m) k"
    by (rule filledRow_Above)
  from Suc.IH [OF this] Suc.prems(2) show ?case by simp
qed

lemma cell_replicate: "cell (replicate a (replicate b 0)) i j = 0"
  by (cases "i < a"; cases "j < b"; simp add: cell_def)

lemma shaped_replicate: "shaped (replicate (n + 1) (replicate (k + 1) 0)) n k"
  by (simp add: shaped_def del: replicate.simps)

lemma lcsMatrix_correct:
  assumes "i \<le> length old" "j \<le> length new"
  shows "cell (lcsMatrix old new) i j = lcsLen (drop i old) (drop j new)"
proof -
  let ?m0 = "replicate (length old + 1) (replicate (length new + 1) (0::nat))"
  have sh: "shaped ?m0 (length old) (length new)"
    by (rule shaped_replicate)
  have "cell ?m0 i' j' = lcsLen (drop i' old) (drop j' new)"
    if "i' \<le> length old" "j' \<le> length new" "length old \<le> i' \<or> j' = length new" for i' j'
    using that by (auto simp only: cell_replicate drop_all lcsLen.simps lcsLen_Nil2 order_refl)
  with sh have "filledAbove old new ?m0 (length old)"
    unfolding filledAbove_def by blast
  then have "filledAbove old new (lcsMatrix old new) 0"
    unfolding lcsMatrix_def by (rule fillRows_filled) simp
  then show ?thesis using assms unfolding filledAbove_def by blast
qed

subsection \<open>Replaying the edit script\<close>

lemma numbered_Cons:
  "f x = ol \<Longrightarrow> map f xs = [ol + 1 ..< ol + 1 + length xs] \<Longrightarrow>
   map f (x # xs) = [ol ..< ol + length (x # xs)]"
  by (simp add: upt_conv_Cons del: upt_Suc)

lemma upt_shift: "i < n \<Longrightarrow> [ol ..< ol + (n - i)] = ol # [ol + 1 ..< ol + 1 + (n - (i + 1))]"
proof -
  assume a: "i < n"
  then have e: "ol + 1 + (n - (i + 1)) = ol + (n - i)" by simp
  have "[ol ..< ol + (n - i)] = ol # [Suc ol ..< ol + (n - i)]"
    using a by (intro upt_conv_Cons) simp
  then show ?thesis unfolding e by simp
qed

lemma removeRest_line: "map line (removeRest old i ln) = drop i old"
proof (induction old i ln rule: removeRest.induct)
  case (1 old i ln)
  show ?case
  proof (cases "i < length old")
    case True
    with 1 show ?thesis by (subst removeRest.simps) (simp add: Cons_nth_drop_Suc)
  next
    case False
    then show ?thesis by (subst removeRest.simps) simp
  qed
qed

lemma removeRest_length: "length (removeRest old i ln) = length old - i"
  using arg_cong [OF removeRest_line [of old i ln], of length] by simp

lemma removeRest_oldLine: "map oldLine (removeRest old i ln) = [ln ..< ln + length (removeRest old i ln)]"
proof (induction old i ln rule: removeRest.induct)
  case (1 old i ln)
  show ?case
  proof (cases "i < length old")
    case True
    then have e: "removeRest old i ln = \<lparr>optype = OpRemove, line = old ! i, oldLine = ln, newLine = 0\<rparr>
        # removeRest old (i + 1) (ln + 1)"
      by (subst removeRest.simps) simp
    show ?thesis unfolding e
      by (rule numbered_Cons) (use 1 True in simp_all)
  next
    case False
    then show ?thesis by (subst (1 2) removeRest.simps) simp
  qed
qed

lemma removeRest_optype: "op \<in> set (removeRest old i ln) \<Longrightarrow> optype op = OpRemove"
proof (induction old i ln rule: removeRest.induct)
  case (1 old i ln)
  from "1.prems" show ?case
    by (subst (asm) removeRest.simps) (auto split: if_splits dest: "1.IH")
qed

lemma addRest_line: "map line (addRest new j ln) = drop j new"
proof (induction new j ln rule: addRest.induct)
  case (1 new j ln)
  show ?case
  proof (cases "j < length new")
    case True
    with 1 show ?thesis by (subst addRest.simps) (simp add: Cons_nth_drop_Suc)
  next
    case False
    then show ?thesis by (subst addRest.simps) simp
  qed
qed

lemma addRest_length: "length (addRest new j ln) = length new - j"
  using arg_cong [OF addRest_line [of new j ln], of length] by simp

lemma addRest_newLine: "map newLine (addRest new j ln) = [ln ..< ln + length (addRest new j ln)]"
proof (induction new j ln rule: addRest.induct)
  case (1 new j ln)
  show ?case
  proof (cases "j < length new")
    case True
    then have e: "addRest new j ln = \<lparr>optype = OpAdd, line = new ! j, oldLine = 0, newLine = ln\<rparr>
        # addRest new (j + 1) (ln + 1)"
      by (subst addRest.simps) simp
    show ?thesis unfolding e
      by (rule numbered_Cons) (use 1 True in simp_all)
  next
    case False
    then show ?thesis by (subst (1 2) addRest.simps) simp
  qed
qed

lemma addRest_optype: "op \<in> set (addRest new j ln) \<Longrightarrow> optype op = OpAdd"
proof (induction new j ln rule: addRest.induct)
  case (1 new j ln)
  from "1.prems" show ?case
    by (subst (asm) addRest.simps) (auto split: if_splits dest: "1.IH")
qed

lemma filter_removeRest_keep: "filter (\<lambda>op. optype op \<noteq> OpAdd) (removeRest old i ln) = removeRest old i ln"
  by (rule filter_True) (auto dest: removeRest_optype)

lemma filter_removeRest_drop: "filter (\<lambda>op. optype op \<noteq> OpRemove) (removeRest old i ln) = []"
  by (rule filter_False) (auto dest: removeRest_optype)

lemma filter_addRest_keep: "filter (\<lambda>op. optype op \<noteq> OpRemove) (addRest new j ln) = addRest new j ln"
  by (rule filter_True) (auto dest: addRest_optype)

lemma filter_addRest_drop: "filter (\<lambda>op. optype op \<noteq> OpAdd) (addRest new j ln) = []"
  by (rule filter_False) (auto dest: addRest_optype)

lemma filter_rest_equal:
  "filter (\<lambda>op. optype op = OpEqual) (removeRest old i ln) = []"
  "filter (\<lambda>op. optype op = OpEqual) (addRest new j ln') = []"
  by (rule filter_False; auto dest: removeRest_optype addRest_optype)+

lemmas rest_filters = filter_removeRest_keep filter_removeRest_drop filter_addRest_keep
  filter_addRest_drop filter_rest_equal

lemma lineOpsFrom_induct [consumes 0, case_names finish equal remove add]:
  assumes fin: "\<And>i j ol nl. \<not> (i < length old \<and> j < length new) \<Longrightarrow>
      P i j ol nl (removeRest old i ol @ addRest new j nl)"
    and eq: "\<And>i j ol nl r. i < length old \<Longrightarrow> j < length new \<Longrightarrow> old ! i = new ! j \<Longrightarrow>
      P (i + 1) (j + 1) (ol + 1) (nl + 1) r \<Longrightarrow>
      P i j ol nl (\<lparr>optype = OpEqual, line = old ! i, oldLine = ol, newLine = nl\<rparr> # r)"
    and rem: "\<And>i j ol nl r. i < length old \<Longrightarrow> j < length new \<Longrightarrow> old ! i \<noteq> new ! j \<Longrightarrow>
      cell m (i + 1) j \<ge> cell m i (j + 1) \<Longrightarrow>
      P (i + 1) j (ol + 1) nl r \<Longrightarrow>
      P i j ol nl (\<lparr>optype = OpRemove, line = old ! i, oldLine = ol, newLine = 0\<rparr> # r)"
    and add: "\<And>i j ol nl r. i < length old \<Longrightarrow> j < length new \<Longrightarrow> old ! i \<noteq> new ! j \<Longrightarrow>
      \<not> cell m (i + 1) j \<ge> cell m i (j + 1) \<Longrightarrow>
      P i (j + 1) ol (nl + 1) r \<Longrightarrow>
      P i j ol nl (\<lparr>optype = OpAdd, line = new ! j, oldLine = 0, newLine = nl\<rparr> # r)"
  shows "P i j ol nl (lineOpsFrom old new m i j ol nl)"
  using assms
proof (induction old new m i j ol nl rule: lineOpsFrom.induct)
  case (1 old new m i j ol nl)
  show ?case
  proof (cases "i < length old \<and> j < length new")
    case False
    then have "lineOpsFrom old new m i j ol nl = removeRest old i ol @ addRest new j nl"
      by (subst lineOpsFrom.simps) (simp only: if_False)
    with "1.prems"(1) [OF False] show ?thesis by simp
  next
    case True
    then have i: "i < length old" and j: "j < length new" by simp_all
    show ?thesis
    proof (cases "old ! i = new ! j")
      case e: True
      have "lineOpsFrom old new m i j ol nl =
          \<lparr>optype = OpEqual, line = old ! i, oldLine = ol, newLine = nl\<rparr>
            # lineOpsFrom old new m (i + 1) (j + 1) (ol + 1) (nl + 1)"
        using i j e by (subst lineOpsFrom.simps) simp
      moreover have "P (i + 1) (j + 1) (ol + 1) (nl + 1)
          (lineOpsFrom old new m (i + 1) (j + 1) (ol + 1) (nl + 1))"
        using True e "1.prems" by (rule "1.IH"(1))
      ultimately show ?thesis using "1.prems"(2) [OF i j e] by simp
    next
      case ne: False
      show ?thesis
      proof (cases "cell m (i + 1) j \<ge> cell m i (j + 1)")
        case c: True
        have "lineOpsFrom old new m i j ol nl =
            \<lparr>optype = OpRemove, line = old ! i, oldLine = ol, newLine = 0\<rparr>
              # lineOpsFrom old new m (i + 1) j (ol + 1) nl"
          using i j ne c by (subst lineOpsFrom.simps) simp
        moreover have "P (i + 1) j (ol + 1) nl (lineOpsFrom old new m (i + 1) j (ol + 1) nl)"
          using True ne c "1.prems" by (rule "1.IH"(2))
        ultimately show ?thesis using "1.prems"(3) [OF i j ne c] by simp
      next
        case c: False
        have "lineOpsFrom old new m i j ol nl =
            \<lparr>optype = OpAdd, line = new ! j, oldLine = 0, newLine = nl\<rparr>
              # lineOpsFrom old new m i (j + 1) ol (nl + 1)"
          using i j ne c by (subst lineOpsFrom.simps) simp
        moreover have "P i (j + 1) ol (nl + 1) (lineOpsFrom old new m i (j + 1) ol (nl + 1))"
          using True ne c "1.prems" by (rule "1.IH"(3))
        ultimately show ?thesis using "1.prems"(4) [OF i j ne c] by simp
      qed
    qed
  qed
qed

lemma lineOpsFrom_old_lines:
  "map line (oldSide (lineOpsFrom old new m i j ol nl)) = drop i old"
proof (rule lineOpsFrom_induct [where P = "\<lambda>i j ol nl r. map line (oldSide r) = drop i old"], goal_cases finish equal remove add)
  case (finish i j ol nl)
  then have "i < length old \<Longrightarrow> drop j new = []" by simp
  then show ?case
    by (cases "i < length old") (simp_all add: oldSide_def rest_filters removeRest_line)
next
  case (equal i j ol nl r)
  then show ?case using Cons_nth_drop_Suc [of i old] by (simp add: oldSide_def)
next
  case (remove i j ol nl r)
  then show ?case using Cons_nth_drop_Suc [of i old] by (simp add: oldSide_def)
next
  case (add i j ol nl r)
  then show ?case by (simp add: oldSide_def)
qed

lemma lineOpsFrom_new_lines:
  "map line (newSide (lineOpsFrom old new m i j ol nl)) = drop j new"
proof (rule lineOpsFrom_induct [where P = "\<lambda>i j ol nl r. map line (newSide r) = drop j new"], goal_cases finish equal remove add)
  case (finish i j ol nl)
  then show ?case
    by (simp add: newSide_def rest_filters addRest_line)
next
  case (equal i j ol nl r)
  then show ?case using Cons_nth_drop_Suc [of j new] by (simp add: newSide_def)
next
  case (remove i j ol nl r)
  then show ?case by (simp add: newSide_def)
next
  case (add i j ol nl r)
  then show ?case using Cons_nth_drop_Suc [of j new] by (simp add: newSide_def)
qed

lemma lineOpsFrom_old_numbers:
  "map oldLine (oldSide (lineOpsFrom old new m i j ol nl))
     = [ol ..< ol + length (oldSide (lineOpsFrom old new m i j ol nl))]"
proof (rule lineOpsFrom_induct [where P = "\<lambda>i j ol nl r. map oldLine (oldSide r) = [ol ..< ol + length (oldSide r)]"], goal_cases finish equal remove add)
  case (finish i j ol nl)
  show ?case
    using removeRest_oldLine [of old i ol] by (simp add: oldSide_def rest_filters)
next
  case (equal i j ol nl r)
  then show ?case unfolding oldSide_def by (simp only: filter.simps lineOp.simps opType.simps if_True not_False_eq_True numbered_Cons)
next
  case (remove i j ol nl r)
  then show ?case unfolding oldSide_def by (simp only: filter.simps lineOp.simps opType.simps if_True not_False_eq_True numbered_Cons)
next
  case (add i j ol nl r)
  then show ?case by (simp add: oldSide_def)
qed

lemma lineOpsFrom_new_numbers:
  "map newLine (newSide (lineOpsFrom old new m i j ol nl))
     = [nl ..< nl + length (newSide (lineOpsFrom old new m i j ol nl))]"
proof (rule lineOpsFrom_induct [where P = "\<lambda>i j ol nl r. map newLine (newSide r) = [nl ..< nl + length (newSide r)]"], goal_cases finish equal remove add)
  case (finish i j ol nl)
  show ?case
    using addRest_newLine [of new j nl] by (simp add: newSide_def rest_filters)
next
  case (equal i j ol nl r)
  then show ?case unfolding newSide_def by (simp only: filter.simps lineOp.simps opType.simps if_True not_False_eq_True numbered_Cons)
next
  case (remove i j ol nl r)
  then show ?case by (simp add: newSide_def)
next
  case (add i j ol nl r)
  then show ?case unfolding newSide_def by (simp only: filter.simps lineOp.simps opType.simps if_True not_False_eq_True numbered_Cons)
qed

lemma length_oldSide: "length (oldSide (lineOpsFrom old new m i j ol nl)) = length old - i"
  using arg_cong [OF lineOpsFrom_old_lines [of old new m i j ol nl], of length] by simp

lemma length_newSide: "length (newSide (lineOpsFrom old new m i j ol nl)) = length new - j"
  using arg_cong [OF lineOpsFrom_new_lines [of old new m i j ol nl], of length] by simp

lemma buildLineOperations_lines:
  "map line (oldSide (buildLineOperations oldLines newLines)) = oldLines"
  "map line (newSide (buildLineOperations oldLines newLines)) = newLines"
  unfolding buildLineOperations_def
  by (simp_all add: lineOpsFrom_old_lines lineOpsFrom_new_lines)

text \<open>
  Claim C1. For all line sequences, the edit script of \<open>buildLineOperations\<close> covers every old
  and every new line exactly once: the lines of the equal and add operations, in order, are the
  new lines; the lines of the equal and remove operations, in order, are the old lines; and the
  old (new) line numbers on the old (new) side are \<open>1, 2, \<dots>\<close> up to the number of old (new)
  lines. Empty inputs are included.
\<close>

theorem buildLineOperations_replay:
  "map line (newSide (buildLineOperations oldLines newLines)) = newLines \<and>
   map line (oldSide (buildLineOperations oldLines newLines)) = oldLines \<and>
   map oldLine (oldSide (buildLineOperations oldLines newLines)) = [1 ..< 1 + length oldLines] \<and>
   map newLine (newSide (buildLineOperations oldLines newLines)) = [1 ..< 1 + length newLines]"
proof -
  let ?ops = "lineOpsFrom oldLines newLines (lcsMatrix oldLines newLines) 0 0 1 1"
  have "map line (newSide ?ops) = newLines" "map line (oldSide ?ops) = oldLines"
    by (simp_all add: lineOpsFrom_old_lines lineOpsFrom_new_lines)
  moreover have "map oldLine (oldSide ?ops) = [1 ..< 1 + length oldLines]"
    using lineOpsFrom_old_numbers [of oldLines newLines "lcsMatrix oldLines newLines" 0 0 1 1]
    by (simp only: length_oldSide diff_zero)
  moreover have "map newLine (newSide ?ops) = [1 ..< 1 + length newLines]"
    using lineOpsFrom_new_numbers [of oldLines newLines "lcsMatrix oldLines newLines" 0 0 1 1]
    by (simp only: length_newSide diff_zero)
  ultimately show ?thesis unfolding buildLineOperations_def by blast
qed

subsection \<open>The equal operations are a longest common subsequence\<close>

lemma lcsLen_upper: "subseq zs xs \<Longrightarrow> subseq zs ys \<Longrightarrow> length zs \<le> lcsLen xs ys"
proof (induction xs ys arbitrary: zs rule: lcsLen.induct)
  case (1 ys)
  then show ?case by simp
next
  case (2 x xs)
  then show ?case by simp
next
  case (3 x xs y ys)
  show ?case
  proof (cases zs)
    case Nil
    then show ?thesis by simp
  next
    case (Cons z zs')
    show ?thesis
    proof (cases "x = y")
      case True
      have "subseq zs' xs" "subseq zs' ys"
        using "3.prems" Cons by (auto dest: subseq_Cons' split: if_splits)
      then have "length zs' \<le> lcsLen xs ys"
        using True by (intro "3.IH"(1))
      then show ?thesis using True Cons by simp
    next
      case False
      show ?thesis
      proof (cases "z = x")
        case zx: True
        then have "subseq zs ys" using "3.prems"(2) Cons False by auto
        with "3.prems"(1) False have "length zs \<le> lcsLen (x # xs) ys"
          by (intro "3.IH"(3))
        then show ?thesis using False by simp
      next
        case zx: False
        then have "subseq zs xs" using "3.prems"(1) Cons by auto
        with "3.prems"(2) False have "length zs \<le> lcsLen xs (y # ys)"
          by (intro "3.IH"(2))
        then show ?thesis using False by simp
      qed
    qed
  qed
qed

lemma equalOps_oldSide: "equalOps (oldSide r) = equalOps r"
  by (induction r) (auto simp: equalOps_def oldSide_def)

lemma equalOps_newSide: "equalOps (newSide r) = equalOps r"
  by (induction r) (auto simp: equalOps_def newSide_def)

lemma subseq_equal_lines: "subseq (map line (equalOps r)) (map line r)"
  unfolding equalOps_def by (intro subseq_map subseq_filter_left)

lemma lineOpsFrom_equal_count:
  assumes m: "\<And>i' j'. i' \<le> length old \<Longrightarrow> j' \<le> length new \<Longrightarrow>
      cell m i' j' = lcsLen (drop i' old) (drop j' new)"
  shows "length (equalOps (lineOpsFrom old new m i j ol nl)) = lcsLen (drop i old) (drop j new)"
proof (rule lineOpsFrom_induct [where P = "\<lambda>i j ol nl r. length (equalOps r) = lcsLen (drop i old) (drop j new)"],
    goal_cases finish equal remove add)
  case (finish i j ol nl)
  then have "drop i old = [] \<or> drop j new = []" by auto
  then have "lcsLen (drop i old) (drop j new) = 0" by auto
  then show ?case by (simp add: equalOps_def rest_filters)
next
  case (equal i j ol nl r)
  then show ?case by (simp add: lcsLen_drop equalOps_def)
next
  case (remove i j ol nl r)
  have "lcsLen (drop i old) (drop (j + 1) new) \<le> lcsLen (drop (i + 1) old) (drop j new)"
    using remove(1,2,4) m [of i "j + 1"] m [of "i + 1" j] by simp
  then show ?case using remove by (simp add: lcsLen_drop equalOps_def)
next
  case (add i j ol nl r)
  have "\<not> lcsLen (drop i old) (drop (j + 1) new) \<le> lcsLen (drop (i + 1) old) (drop j new)"
    using add(1,2,4) m [of i "j + 1"] m [of "i + 1" j] by simp
  then show ?case using add by (simp add: lcsLen_drop equalOps_def)
qed

text \<open>
  Claim C2. The lines of the equal operations form a longest common subsequence of the two
  inputs under equality of strings: they are a subsequence of the old lines and of the new
  lines, and no common subsequence is longer.
\<close>

theorem buildLineOperations_lcs:
  "subseq (map line (equalOps (buildLineOperations oldLines newLines))) oldLines \<and>
   subseq (map line (equalOps (buildLineOperations oldLines newLines))) newLines \<and>
   (\<forall>zs. subseq zs oldLines \<and> subseq zs newLines \<longrightarrow>
      length zs \<le> length (map line (equalOps (buildLineOperations oldLines newLines))))"
proof (intro conjI allI impI)
  let ?ops = "buildLineOperations oldLines newLines"
  have "subseq (map line (equalOps (oldSide ?ops))) (map line (oldSide ?ops))"
    by (rule subseq_equal_lines)
  then show "subseq (map line (equalOps ?ops)) oldLines"
    by (simp only: equalOps_oldSide buildLineOperations_lines)
  have "subseq (map line (equalOps (newSide ?ops))) (map line (newSide ?ops))"
    by (rule subseq_equal_lines)
  then show "subseq (map line (equalOps ?ops)) newLines"
    by (simp only: equalOps_newSide buildLineOperations_lines)
next
  fix zs
  assume "subseq zs oldLines \<and> subseq zs newLines"
  then have "length zs \<le> lcsLen oldLines newLines"
    by (simp add: lcsLen_upper)
  also have "lcsLen oldLines newLines
      = length (equalOps (buildLineOperations oldLines newLines))"
    unfolding buildLineOperations_def
    using lineOpsFrom_equal_count [of oldLines newLines "lcsMatrix oldLines newLines" 0 0 1 1]
    by (simp add: lcsMatrix_correct)
  finally show "length zs \<le> length (map line (equalOps (buildLineOperations oldLines newLines)))"
    by simp
qed

text \<open>The hypothesis of C2 at the common subsequence \<open>a, c\<close> of \<open>a, b, c\<close> and \<open>a, x, c\<close>.\<close>

theorem buildLineOperations_lcs_witness:
  "subseq [''a'', ''c''] [''a'', ''b'', ''c''] \<and> subseq [''a'', ''c''] [''a'', ''x'', ''c''] \<and>
   length [''a'', ''c''] \<le>
     length (map line (equalOps (buildLineOperations [''a'', ''b'', ''c''] [''a'', ''x'', ''c''])))"
proof -
  have h: "subseq [''a'', ''c''] [''a'', ''b'', ''c''] \<and> subseq [''a'', ''c''] [''a'', ''x'', ''c'']"
    by simp
  with buildLineOperations_lcs [of "[''a'', ''b'', ''c'']" "[''a'', ''x'', ''c'']"]
  show ?thesis by blast
qed

section \<open>Properties of the word alignment\<close>

lemma concat_splitWhitespace: "concat (splitWhitespace s) = s"
proof (induction s rule: splitWhitespace.induct)
  case (1 s)
  let ?pre = "takeWhile (\<lambda>c. \<not> isWhitespace c) s"
  let ?rest = "dropWhile (\<lambda>c. \<not> isWhitespace c) s"
  show ?case
  proof (cases "?rest = []")
    case True
    then have "splitWhitespace s = [?pre]"
      by (subst splitWhitespace.simps) (simp add: Let_def)
    moreover have "?pre = s" using True by simp
    ultimately show ?thesis by simp
  next
    case False
    then have e: "splitWhitespace s =
        ?pre # takeWhile isWhitespace ?rest # splitWhitespace (dropWhile isWhitespace ?rest)"
      by (subst splitWhitespace.simps) (simp add: Let_def)
    have "concat (splitWhitespace (dropWhile isWhitespace ?rest)) = dropWhile isWhitespace ?rest"
      using False by (intro "1.IH") simp_all
    then have "concat (splitWhitespace s) = ?pre @ (takeWhile isWhitespace ?rest @ dropWhile isWhitespace ?rest)"
      unfolding e by simp
    then show ?thesis by (simp only: takeWhile_dropWhile_id)
  qed
qed

lemma concat_filter_nonempty: "concat (filter (\<lambda>part. length part > 0) xs) = concat xs"
  by (induction xs) auto

lemma concat_tokens: "concat (tokens s) = s"
  unfolding tokens_def by (simp only: concat_filter_nonempty concat_splitWhitespace)

lemma changedRest_text: "map ptext (changedRest toks i) = drop i toks"
proof (induction toks i rule: changedRest.induct)
  case (1 toks i)
  show ?case
  proof (cases "i < length toks")
    case True
    with 1 show ?thesis by (subst changedRest.simps) (simp add: Cons_nth_drop_Suc)
  next
    case False
    then show ?thesis by (subst changedRest.simps) simp
  qed
qed

lemma inlineFrom_text:
  "map ptext (fst (inlineFrom L R m i j)) = drop i L \<and>
   map ptext (snd (inlineFrom L R m i j)) = drop j R"
proof (induction L R m i j rule: inlineFrom.induct)
  case (1 L R m i j)
  show ?case
  proof (cases "i < length L \<and> j < length R")
    case False
    then have "inlineFrom L R m i j = (changedRest L i, changedRest R j)"
      by (subst inlineFrom.simps) (simp only: if_False)
    then show ?thesis by (simp add: changedRest_text)
  next
    case True
    then have i: "i < length L" and j: "j < length R" by simp_all
    note di = Cons_nth_drop_Suc [OF i] and dj = Cons_nth_drop_Suc [OF j]
    show ?thesis
    proof (cases "L ! i = R ! j")
      case e: True
      obtain ls rs where r: "inlineFrom L R m (i + 1) (j + 1) = (ls, rs)"
        by (cases "inlineFrom L R m (i + 1) (j + 1)")
      have "inlineFrom L R m i j =
          (\<lparr>ptext = L ! i, changed = False\<rparr> # ls, \<lparr>ptext = R ! j, changed = False\<rparr> # rs)"
        using i j e r by (subst inlineFrom.simps) simp
      moreover have "map ptext ls = drop (i + 1) L \<and> map ptext rs = drop (j + 1) R"
        using "1.IH"(1) [OF True e] r by simp
      ultimately show ?thesis using di dj by simp
    next
      case ne: False
      show ?thesis
      proof (cases "cell m (i + 1) j \<ge> cell m i (j + 1)")
        case c: True
        obtain ls rs where r: "inlineFrom L R m (i + 1) j = (ls, rs)"
          by (cases "inlineFrom L R m (i + 1) j")
        have "inlineFrom L R m i j = (\<lparr>ptext = L ! i, changed = True\<rparr> # ls, rs)"
          using i j ne c r by (subst inlineFrom.simps) simp
        moreover have "map ptext ls = drop (i + 1) L \<and> map ptext rs = drop j R"
          using "1.IH"(2) [OF True ne c] r by simp
        ultimately show ?thesis using di by simp
      next
        case c: False
        obtain ls rs where r: "inlineFrom L R m i (j + 1) = (ls, rs)"
          by (cases "inlineFrom L R m i (j + 1)")
        have "inlineFrom L R m i j = (ls, \<lparr>ptext = R ! j, changed = True\<rparr> # rs)"
          using i j ne c r by (subst inlineFrom.simps) simp
        moreover have "map ptext ls = drop i L \<and> map ptext rs = drop (j + 1) R"
          using "1.IH"(3) [OF True ne c] r by simp
        ultimately show ?thesis using dj by simp
      qed
    qed
  qed
qed

lemma diffInlineSegments_tokens:
  "map ptext (left (diffInlineSegments l r)) = tokens l"
  "map ptext (right (diffInlineSegments l r)) = tokens r"
  using inlineFrom_text [of "tokens l" "tokens r" "lcsMatrix (tokens l) (tokens r)" 0 0]
  by (simp_all add: diffInlineSegments_def Let_def case_prod_beta)

lemma tokenRuns_Cons:
  "tokenRuns (t # ts) =
     (homogeneous t \<and> (ts = [] \<or> (isWhitespace (hd t) \<noteq> isWhitespace (hd (hd ts)) \<and> tokenRuns ts)))"
  by (cases ts) auto

lemma tokens_nonempty: "t \<in> set (tokens s) \<Longrightarrow> t \<noteq> []"
  by (auto simp: tokens_def)

lemma tokens_hd:
  assumes "tokens s \<noteq> []"
  shows "hd (hd (tokens s)) = hd s"
proof -
  obtain t ts where ts: "tokens s = t # ts" using assms by (cases "tokens s") auto
  then have "t \<noteq> []" using tokens_nonempty [of t s] by simp
  moreover have "s = t @ concat ts" using concat_tokens [of s] ts by simp
  ultimately show ?thesis using ts by (cases t) auto
qed

lemma tokens_unfold_done:
  assumes "dropWhile (\<lambda>c. \<not> isWhitespace c) s = []"
  shows "tokens s = (if s = [] then [] else [s])"
proof -
  have "takeWhile (\<lambda>c. \<not> isWhitespace c) s = s" using assms by simp
  then have "splitWhitespace s = [s]"
    using assms by (subst splitWhitespace.simps) (simp add: Let_def)
  then show ?thesis by (simp add: tokens_def)
qed

lemma tokens_empty: "tokens [] = []"
  by (simp add: tokens_unfold_done)

lemma tokens_unfold_step:
  assumes "dropWhile (\<lambda>c. \<not> isWhitespace c) s \<noteq> []"
  shows "tokens s =
     (if takeWhile (\<lambda>c. \<not> isWhitespace c) s = [] then []
      else [takeWhile (\<lambda>c. \<not> isWhitespace c) s])
     @ takeWhile isWhitespace (dropWhile (\<lambda>c. \<not> isWhitespace c) s)
     # tokens (dropWhile isWhitespace (dropWhile (\<lambda>c. \<not> isWhitespace c) s))"
proof -
  let ?rest = "dropWhile (\<lambda>c. \<not> isWhitespace c) s"
  have "isWhitespace (hd ?rest)"
    using assms hd_dropWhile [of "\<lambda>c. \<not> isWhitespace c" s] by simp
  then have "takeWhile isWhitespace ?rest \<noteq> []"
    using assms by (cases ?rest) auto
  moreover have "splitWhitespace s = takeWhile (\<lambda>c. \<not> isWhitespace c) s
      # takeWhile isWhitespace ?rest # splitWhitespace (dropWhile isWhitespace ?rest)"
    using assms by (subst splitWhitespace.simps) (simp add: Let_def)
  ultimately show ?thesis by (simp add: tokens_def)
qed

lemma tokenRuns_tokens: "tokenRuns (tokens s)"
proof (induction s rule: splitWhitespace.induct)
  case (1 s)
  let ?pre = "takeWhile (\<lambda>c. \<not> isWhitespace c) s"
  let ?rest = "dropWhile (\<lambda>c. \<not> isWhitespace c) s"
  let ?run = "takeWhile isWhitespace ?rest"
  let ?rest' = "dropWhile isWhitespace ?rest"
  have pre: "list_all (\<lambda>c. \<not> isWhitespace c) ?pre"
    by (auto simp: list_all_iff dest: set_takeWhileD)
  show ?case
  proof (cases "?rest = []")
    case True
    then have "?pre = s" by simp
    with pre have "s \<noteq> [] \<Longrightarrow> homogeneous s" by (simp add: homogeneous_def)
    then show ?thesis by (simp add: tokens_unfold_done [OF True])
  next
    case False
    have hr: "isWhitespace (hd ?rest)"
      using False hd_dropWhile [of "\<lambda>c. \<not> isWhitespace c" s] by simp
    then have rne: "?run \<noteq> []" and hrun: "isWhitespace (hd ?run)"
      using False by (cases ?rest; auto)+
    have "list_all isWhitespace ?run"
      by (auto simp: list_all_iff dest: set_takeWhileD)
    with rne have hom_run: "homogeneous ?run" by (simp add: homogeneous_def)
    have ih: "tokenRuns (tokens ?rest')"
      using False by (intro "1.IH") simp_all
    have next_kind: "\<not> isWhitespace (hd (hd (tokens ?rest')))" if "tokens ?rest' \<noteq> []"
    proof -
      have "?rest' \<noteq> []" using that tokens_empty by metis
      then have "\<not> isWhitespace (hd ?rest')" by (rule hd_dropWhile)
      then show ?thesis using tokens_hd [OF that] by simp
    qed
    have tail: "tokenRuns (?run # tokens ?rest')"
      unfolding tokenRuns_Cons using hom_run hrun ih next_kind by auto
    show ?thesis
    proof (cases "?pre = []")
      case True
      then show ?thesis using tail by (simp add: tokens_unfold_step [OF False])
    next
      case pne: False
      then have "homogeneous ?pre" using pre by (simp add: homogeneous_def)
      moreover have "\<not> isWhitespace (hd ?pre)"
        using pne pre by (cases ?pre) auto
      ultimately have "tokenRuns (?pre # ?run # tokens ?rest')"
        using tail hrun by simp
      then show ?thesis using pne by (simp add: tokens_unfold_step [OF False])
    qed
  qed
qed

text \<open>
  Claim C5. For every pair of strings, the texts of the left parts of \<open>diffInlineSegments\<close> are
  the tokens of the old line and those of the right parts the tokens of the new line; the
  tokens are the maximal runs of whitespace and of other characters, the whitespace kept as
  tokens of its own; the concatenation of the left texts is the old line exactly, and that of
  the right texts the new line exactly.
\<close>

theorem diffInlineSegments_roundtrip:
  "map ptext (left (diffInlineSegments oldLn newLn)) = tokens oldLn \<and>
   map ptext (right (diffInlineSegments oldLn newLn)) = tokens newLn \<and>
   tokenRuns (tokens oldLn) \<and> tokenRuns (tokens newLn) \<and>
   concat (map ptext (left (diffInlineSegments oldLn newLn))) = oldLn \<and>
   concat (map ptext (right (diffInlineSegments oldLn newLn))) = newLn"
  by (simp only: diffInlineSegments_tokens concat_tokens tokenRuns_tokens)

section \<open>Properties of the hunks\<close>

subsection \<open>The inner loops\<close>

lemma findFirstChange_Some:
  "findFirstChange operations index = Some f \<Longrightarrow>
   index \<le> f \<and> isChange operations f \<and>
   (\<forall>k. index \<le> k \<and> k < f \<longrightarrow> optype (operations ! k) = OpEqual)"
proof (induction operations index rule: findFirstChange.induct)
  case (1 operations index)
  show ?case
  proof (cases "index < length operations")
    case False
    then have "findFirstChange operations index = None"
      by (subst findFirstChange.simps) simp
    with "1.prems" show ?thesis by simp
  next
    case True
    show ?thesis
    proof (cases "optype (operations ! index) \<noteq> OpEqual")
      case c: True
      then have "findFirstChange operations index = Some index"
        using True by (subst findFirstChange.simps) simp
      with "1.prems" True c show ?thesis by (auto simp: isChange_def)
    next
      case c: False
      then have "findFirstChange operations index = findFirstChange operations (index + 1)"
        using True by (subst findFirstChange.simps) simp
      with "1.prems" have "findFirstChange operations (index + 1) = Some f" by simp
      from "1.IH" [OF True c this]
      have ih: "index + 1 \<le> f" "isChange operations f"
        "\<And>k. index + 1 \<le> k \<Longrightarrow> k < f \<Longrightarrow> optype (operations ! k) = OpEqual"
        by auto
      have "optype (operations ! k) = OpEqual" if "index \<le> k" "k < f" for k
        using that c ih(3) [of k] by (cases "k = index") auto
      with ih(1,2) show ?thesis by auto
    qed
  qed
qed

lemma findFirstChange_None:
  "findFirstChange operations index = None \<Longrightarrow> index \<le> k \<Longrightarrow> \<not> isChange operations k"
proof (induction operations index rule: findFirstChange.induct)
  case (1 operations index)
  show ?case
  proof (cases "index < length operations")
    case False
    with "1.prems" show ?thesis by (simp add: isChange_def)
  next
    case True
    show ?thesis
    proof (cases "optype (operations ! index) \<noteq> OpEqual")
      case c: True
      then have "findFirstChange operations index = Some index"
        using True by (subst findFirstChange.simps) simp
      with "1.prems" show ?thesis by simp
    next
      case c: False
      then have "findFirstChange operations index = findFirstChange operations (index + 1)"
        using True by (subst findFirstChange.simps) simp
      with "1.prems" have n: "findFirstChange operations (index + 1) = None" by simp
      show ?thesis
      proof (cases "k = index")
        case True
        then show ?thesis using c by (simp add: isChange_def)
      next
        case False
        with "1.prems"(2) have "index + 1 \<le> k" by simp
        with "1.IH" [OF True c n] show ?thesis by simp
      qed
    qed
  qed
qed

lemma extentI:
  assumes "l \<le> l'" "l' \<le> e'" "e \<le> e'" "e' < length operations"
    "l' = l \<or> isChange operations l'"
    "e' = min (length operations - 1) (l' + ctx)"
    "\<And>k. l' < k \<Longrightarrow> k \<le> l' + ctx + 1 \<Longrightarrow> k < length operations
        \<Longrightarrow> optype (operations ! k) = OpEqual"
    "\<And>k. l \<le> k \<Longrightarrow> k < l'
        \<Longrightarrow> \<exists>c. k < c \<and> c \<le> k + ctx + 1 \<and> c \<le> l' \<and> isChange operations c"
  shows "extent operations ctx l e e' l'"
  unfolding extent_def using assms by blast

lemma extendHunk_spec:
  assumes "l \<le> e" "index = e + 1" "e < length operations" "e \<le> l + ctx"
    and "\<And>k. l < k \<Longrightarrow> k \<le> e \<Longrightarrow> optype (operations ! k) = OpEqual"
    and "extendHunk operations ctx index e l = (e', l')"
  shows "extent operations ctx l e e' l'"
  using assms
proof (induction operations ctx index e l rule: extendHunk.induct)
  case (1 operations ctx index e l)
  note eq = "1.prems"(5)
  show ?case
  proof (cases "index < length operations")
    case False
    then have "extendHunk operations ctx index e l = (e, l)"
      by (subst extendHunk.simps) simp
    with "1.prems"(6) have r: "e' = e" "l' = l" by simp_all
    have en: "e = length operations - 1" using False "1.prems"(2,3) by simp
    show ?thesis unfolding r
    proof (rule extentI)
      show "e = min (length operations - 1) (l + ctx)"
        using en "1.prems"(4) by simp
      show "optype (operations ! k) = OpEqual"
        if "l < k" "k \<le> l + ctx + 1" "k < length operations" for k
        using that en by (intro eq) simp_all
    qed (use "1.prems"(1,3) in simp_all)
  next
    case True
    let ?l = "if optype (operations ! index) \<noteq> OpEqual then index else l"
    show ?thesis
    proof (cases "int index - int ?l > int ctx")
      case b: True
      then have "extendHunk operations ctx index e l = (e, ?l)"
        using True by (subst extendHunk.simps) (simp add: Let_def)
      moreover have ne: "optype (operations ! index) = OpEqual"
        using b by (auto split: if_splits)
      ultimately have r: "e' = e" "l' = l" using "1.prems"(6) by simp_all
      have el: "e = l + ctx" using b ne "1.prems"(2,4) by simp
      show ?thesis unfolding r
      proof (rule extentI)
        show "e = min (length operations - 1) (l + ctx)"
          using el "1.prems"(3) by simp
        show "optype (operations ! k) = OpEqual"
          if "l < k" "k \<le> l + ctx + 1" "k < length operations" for k
        proof (cases "k = index")
          case True
          then show ?thesis using ne by simp
        next
          case False
          then have "k \<le> e" using that(2) el "1.prems"(2) by simp
          with that(1) show ?thesis by (rule eq)
        qed
      qed (use "1.prems"(1,3) in simp_all)
    next
      case b: False
      have rec: "extendHunk operations ctx (index + 1) index ?l = (e', l')"
        using True b "1.prems"(6) by (subst (asm) extendHunk.simps) (simp add: Let_def)
      have p1: "?l \<le> index" using "1.prems"(1,2) by simp
      have p4: "index \<le> ?l + ctx" using b by simp
      have p5: "optype (operations ! k) = OpEqual" if "?l < k" "k \<le> index" for k
      proof (cases "optype (operations ! index) \<noteq> OpEqual")
        case True
        with that show ?thesis by simp
      next
        case False
        show ?thesis
        proof (cases "k = index")
          case True
          with False show ?thesis by simp
        next
          case k: False
          with that False "1.prems"(2) have "l < k" "k \<le> e" by simp_all
          then show ?thesis by (rule eq)
        qed
      qed
      have ih: "extent operations ctx ?l index e' l'"
        using True refl b p1 refl _ p4 p5 rec
      proof (rule "1.IH")
        show "index < length operations" by (rule True)
      qed
      then have i1: "?l \<le> l'" "l' \<le> e'" "index \<le> e'" "e' < length operations"
        and i2: "l' = ?l \<or> isChange operations l'"
        and i3: "e' = min (length operations - 1) (l' + ctx)"
        and i4: "\<And>k. l' < k \<Longrightarrow> k \<le> l' + ctx + 1 \<Longrightarrow> k < length operations
            \<Longrightarrow> optype (operations ! k) = OpEqual"
        and i5: "\<And>k. ?l \<le> k \<Longrightarrow> k < l'
            \<Longrightarrow> \<exists>c. k < c \<and> c \<le> k + ctx + 1 \<and> c \<le> l' \<and> isChange operations c"
        unfolding extent_def by blast+
      have l_le: "l \<le> ?l" using "1.prems"(1,2) by simp
      show ?thesis
      proof (rule extentI)
        show "l \<le> l'" using l_le i1(1) by simp
        show "l' \<le> e'" by (rule i1(2))
        show "e \<le> e'" using i1(3) "1.prems"(2) by simp
        show "e' < length operations" by (rule i1(4))
        show "l' = l \<or> isChange operations l'"
        proof (cases "optype (operations ! index) \<noteq> OpEqual")
          case c: True
          then have "isChange operations index" using True by (simp add: isChange_def)
          with i2 c show ?thesis by auto
        next
          case False
          with i2 show ?thesis by simp
        qed
        show "e' = min (length operations - 1) (l' + ctx)" by (rule i3)
        show "optype (operations ! k) = OpEqual"
          if "l' < k" "k \<le> l' + ctx + 1" "k < length operations" for k
          using that by (rule i4)
        show "\<exists>c. k < c \<and> c \<le> k + ctx + 1 \<and> c \<le> l' \<and> isChange operations c"
          if k: "l \<le> k" "k < l'" for k
        proof (cases "?l \<le> k")
          case True
          then show ?thesis using k(2) by (rule i5)
        next
          case False
          then have li: "?l = index" and ch: "optype (operations ! index) \<noteq> OpEqual"
            using k(1) by (auto split: if_splits)
          have "k < index" using False li by simp
          moreover have "index \<le> k + ctx + 1" using "1.prems"(2,4) k(1) by simp
          moreover have "index \<le> l'" using i1(1) li by simp
          moreover have "isChange operations index" using True ch by (simp add: isChange_def)
          ultimately show ?thesis by blast
        qed
      qed
    qed
  qed
qed


subsection \<open>The windows of the outer loop\<close>

lemma hunkWindow_valid:
  assumes "isChange operations f"
  shows "validWindow operations ctx (hunkWindow operations ctx f)"
proof -
  obtain e' l' where x: "extendHunk operations ctx (f + 1) f f = (e', l')"
    by (cases "extendHunk operations ctx (f + 1) f f")
  have fn: "f < length operations" using assms by (simp add: isChange_def)
  have "extent operations ctx f f e' l'"
    using _ _ fn _ _ x by (rule extendHunk_spec) simp_all
  then have i1: "f \<le> l'" "l' \<le> e'" "f \<le> e'" "e' < length operations"
    and i2: "l' = f \<or> isChange operations l'"
    and i3: "e' = min (length operations - 1) (l' + ctx)"
    and i4: "\<forall>k. l' < k \<and> k \<le> l' + ctx + 1 \<and> k < length operations
        \<longrightarrow> optype (operations ! k) = OpEqual"
    and i5: "\<forall>k. f \<le> k \<and> k < l'
        \<longrightarrow> (\<exists>c. k < c \<and> c \<le> k + ctx + 1 \<and> c \<le> l' \<and> isChange operations c)"
    unfolding extent_def by blast+
  have e1: "min (length operations - 1) e' = e'" using i1(4) by simp
  have e2: "(if l' + ctx > e' then min (length operations - 1) (l' + ctx) else e') = e'"
    using i3 by simp
  have s0: "nat (max 0 (int f - int ctx)) = f - ctx" by simp
  have s1: "\<not> f - ctx > e'" using i1(3) by simp
  have w: "hunkWindow operations ctx f = \<lparr>wStart = f - ctx, wEnd = e', wFirst = f, wLast = l'\<rparr>"
    unfolding hunkWindow_def Let_def x prod.case e1 e2 s0 using s1 by simp
  have "isChange operations l'" using i2 assms by auto
  then show ?thesis
    unfolding validWindow_def w using i1 i3 i4 i5 assms by simp
qed

lemma hunkWindows_Nil1: "\<not> cursor < length operations \<Longrightarrow> hunkWindows operations ctx cursor = []"
  by (subst hunkWindows.simps) simp

lemma hunkWindows_Nil2:
  "findFirstChange operations cursor = None \<Longrightarrow> hunkWindows operations ctx cursor = []"
  by (subst hunkWindows.simps) simp

lemma hunkWindows_Cons:
  "cursor < length operations \<Longrightarrow> findFirstChange operations cursor = Some f \<Longrightarrow>
   hunkWindows operations ctx cursor =
     hunkWindow operations ctx f # hunkWindows operations ctx (wEnd (hunkWindow operations ctx f) + 1)"
  by (subst hunkWindows.simps) (simp add: Let_def)

lemma hunkWindows_valid:
  "w \<in> set (hunkWindows operations ctx cursor) \<Longrightarrow> validWindow operations ctx w"
proof (induction operations ctx cursor rule: hunkWindows.induct)
  case (1 operations ctx cursor)
  show ?case
  proof (cases "cursor < length operations")
    case False
    with "1.prems" show ?thesis by (simp add: hunkWindows_Nil1)
  next
    case True
    show ?thesis
    proof (cases "findFirstChange operations cursor")
      case None
      with "1.prems" show ?thesis by (simp add: hunkWindows_Nil2)
    next
      case (Some f)
      let ?w = "hunkWindow operations ctx f"
      from "1.prems" have "w = ?w \<or> w \<in> set (hunkWindows operations ctx (wEnd ?w + 1))"
        by (simp add: hunkWindows_Cons [OF True Some])
      then show ?thesis
      proof
        assume "w = ?w"
        moreover have "isChange operations f"
          using findFirstChange_Some [OF Some] by simp
        ultimately show ?thesis by (simp add: hunkWindow_valid)
      next
        assume "w \<in> set (hunkWindows operations ctx (wEnd ?w + 1))"
        with True Some refl show ?thesis by (rule "1.IH")
      qed
    qed
  qed
qed

lemma hunkWindows_cover:
  "isChange operations i \<Longrightarrow> cursor \<le> i \<Longrightarrow>
   \<exists>w \<in> set (hunkWindows operations ctx cursor). wFirst w \<le> i \<and> i \<le> wLast w"
proof (induction operations ctx cursor rule: hunkWindows.induct)
  case (1 operations ctx cursor)
  have True: "cursor < length operations"
    using "1.prems" by (simp add: isChange_def)
  show ?case
  proof (cases "findFirstChange operations cursor")
    case None
    from findFirstChange_None [OF None "1.prems"(2)] "1.prems"(1) show ?thesis by simp
  next
    case (Some f)
    let ?w = "hunkWindow operations ctx f"
    note ff = findFirstChange_Some [OF Some]
    have v: "validWindow operations ctx ?w"
      using ff by (simp add: hunkWindow_valid)
    have unf: "hunkWindows operations ctx cursor = ?w # hunkWindows operations ctx (wEnd ?w + 1)"
      by (rule hunkWindows_Cons [OF True Some])
    have fi: "f \<le> i"
    proof (rule ccontr)
      assume "\<not> f \<le> i"
      then have "optype (operations ! i) = OpEqual" using ff "1.prems"(2) by simp
      with "1.prems"(1) show False by (simp add: isChange_def)
    qed
    show ?thesis
    proof (cases "i \<le> wLast ?w")
      case True
      then show ?thesis unfolding unf using fi by simp
    next
      case False
      have "\<not> i \<le> wLast ?w + ctx + 1"
      proof
        assume "i \<le> wLast ?w + ctx + 1"
        with False v "1.prems"(1) have "optype (operations ! i) = OpEqual"
          unfolding validWindow_def isChange_def by simp
        with "1.prems"(1) show False by (simp add: isChange_def)
      qed
      moreover have "wEnd ?w \<le> wLast ?w + ctx"
        using v unfolding validWindow_def by simp
      ultimately have "wEnd ?w + 1 \<le> i" by simp
      with "1.prems"(1) have "\<exists>w \<in> set (hunkWindows operations ctx (wEnd ?w + 1)).
          wFirst w \<le> i \<and> i \<le> wLast w"
        by (intro "1.IH" [OF True Some refl])
      then show ?thesis unfolding unf by auto
    qed
  qed
qed

lemma hunksFrom_windows:
  "hunksFrom operations ctx cursor =
     map (\<lambda>w. makeHunk (slice operations (wStart w) (wEnd w + 1)))
       (hunkWindows operations ctx cursor)"
proof (induction operations ctx cursor rule: hunkWindows.induct)
  case (1 operations ctx cursor)
  show ?case
  proof (cases "cursor < length operations")
    case False
    then show ?thesis
      by (subst hunksFrom.simps) (simp add: hunkWindows_Nil1)
  next
    case True
    show ?thesis
    proof (cases "findFirstChange operations cursor")
      case None
      then show ?thesis
        by (subst hunksFrom.simps) (simp add: hunkWindows_Nil2)
    next
      case (Some f)
      let ?w = "hunkWindow operations ctx f"
      have "hunksFrom operations ctx cursor =
          makeHunk (slice operations (wStart ?w) (wEnd ?w + 1))
            # hunksFrom operations ctx (wEnd ?w + 1)"
        using True Some by (subst hunksFrom.simps) (simp add: Let_def)
      then show ?thesis
        using "1.IH" [OF True Some refl] by (simp add: hunkWindows_Cons [OF True Some])
    qed
  qed
qed

subsection \<open>Grouping of the changes\<close>

lemma consecutiveChanges_between:
  "consecutiveChanges operations i j \<Longrightarrow> i < k \<Longrightarrow> k < j \<Longrightarrow> \<not> isChange operations k"
  by (auto simp: consecutiveChanges_def isChange_def list_all_iff)

lemma validWindow_chain:
  "validWindow operations ctx w \<Longrightarrow> wFirst w \<le> k \<Longrightarrow> k < wLast w \<Longrightarrow>
   \<exists>c. k < c \<and> c \<le> k + ctx + 1 \<and> c \<le> wLast w \<and> isChange operations c"
  unfolding validWindow_def by blast

lemma validWindow_gap:
  "validWindow operations ctx w \<Longrightarrow> wLast w < k \<Longrightarrow> k \<le> wLast w + ctx + 1 \<Longrightarrow>
   \<not> isChange operations k"
  unfolding validWindow_def isChange_def by blast

lemma validWindow_bounds:
  assumes "validWindow operations ctx w"
  shows "isChange operations (wFirst w)" "isChange operations (wLast w)" "wFirst w \<le> wLast w"
    "wStart w = wFirst w - ctx" "wEnd w = min (length operations - 1) (wLast w + ctx)"
  using assms unfolding validWindow_def by blast+

lemma same_hunk:
  assumes cc: "consecutiveChanges operations i j" and gap: "j - i - 1 \<le> ctx"
  shows "\<exists>w \<in> set (hunkWindows operations ctx 0). wFirst w \<le> i \<and> j \<le> wLast w"
proof -
  have ci: "isChange operations i" and cj: "isChange operations j" and ij: "i < j"
    using cc by (simp_all add: consecutiveChanges_def)
  obtain w where w: "w \<in> set (hunkWindows operations ctx 0)" "wFirst w \<le> i" "i \<le> wLast w"
    using hunkWindows_cover [OF ci, of 0 ctx] by auto
  have v: "validWindow operations ctx w" using w(1) by (rule hunkWindows_valid)
  have "j \<le> wLast w"
  proof (rule ccontr)
    assume n: "\<not> j \<le> wLast w"
    show False
    proof (cases "i = wLast w")
      case True
      then have "wLast w < j" "j \<le> wLast w + ctx + 1" using ij gap by simp_all
      with validWindow_gap [OF v] cj show False by blast
    next
      case False
      then have "i < wLast w" "wLast w < j" using w(3) n by simp_all
      with consecutiveChanges_between [OF cc] validWindow_bounds(2) [OF v] show False by blast
    qed
  qed
  with w show ?thesis by blast
qed

lemma split_hunks:
  assumes cc: "consecutiveChanges operations i j" and gap: "ctx < j - i - 1"
  shows "\<exists>w \<in> set (hunkWindows operations ctx 0). wLast w = i"
    and "\<exists>w \<in> set (hunkWindows operations ctx 0). wFirst w = j"
    and "\<not> (\<exists>w \<in> set (hunkWindows operations ctx 0). wStart w \<le> i \<and> j \<le> wEnd w)"
proof -
  have ci: "isChange operations i" and cj: "isChange operations j" and ij: "i < j"
    using cc by (simp_all add: consecutiveChanges_def)
  have nochain: False
    if v: "validWindow operations ctx w" and a: "wFirst w \<le> i" "i < wLast w" for w
  proof -
    obtain c where c: "i < c" "c \<le> i + ctx + 1" "isChange operations c"
      using validWindow_chain [OF v a] by blast
    then have "c < j" using gap by simp
    with consecutiveChanges_between [OF cc c(1)] c(3) show False by blast
  qed
  obtain w where w: "w \<in> set (hunkWindows operations ctx 0)" "wFirst w \<le> i" "i \<le> wLast w"
    using hunkWindows_cover [OF ci, of 0 ctx] by auto
  have "wLast w = i"
    using nochain [OF hunkWindows_valid [OF w(1)] w(2)] w(3) by (cases "i = wLast w") auto
  with w(1) show "\<exists>w \<in> set (hunkWindows operations ctx 0). wLast w = i" by blast
  obtain u where u: "u \<in> set (hunkWindows operations ctx 0)" "wFirst u \<le> j" "j \<le> wLast u"
    using hunkWindows_cover [OF cj, of 0 ctx] by auto
  have vu: "validWindow operations ctx u" using u(1) by (rule hunkWindows_valid)
  have "wFirst u = j"
  proof (rule ccontr)
    assume "wFirst u \<noteq> j"
    then have lt: "wFirst u < j" using u(2) by simp
    show False
    proof (cases "wFirst u \<le> i")
      case True
      with nochain [OF vu] ij u(3) show False by simp
    next
      case False
      then have "i < wFirst u" by simp
      with consecutiveChanges_between [OF cc _ lt] validWindow_bounds(1) [OF vu]
      show False by blast
    qed
  qed
  with u(1) show "\<exists>w \<in> set (hunkWindows operations ctx 0). wFirst w = j" by blast
  show "\<not> (\<exists>w \<in> set (hunkWindows operations ctx 0). wStart w \<le> i \<and> j \<le> wEnd w)"
  proof
    assume "\<exists>w \<in> set (hunkWindows operations ctx 0). wStart w \<le> i \<and> j \<le> wEnd w"
    then obtain x where x: "x \<in> set (hunkWindows operations ctx 0)" "wStart x \<le> i" "j \<le> wEnd x"
      by blast
    have vx: "validWindow operations ctx x" using x(1) by (rule hunkWindows_valid)
    note b = validWindow_bounds [OF vx]
    have fle: "wFirst x \<le> i + ctx" using x(2) b(4) by simp
    have jle: "j \<le> wLast x + ctx" using x(3) b(5) by simp
    show False
    proof (cases "j \<le> wLast x")
      case True
      show False
      proof (cases "wFirst x \<le> i")
        case True
        with nochain [OF vx] ij \<open>j \<le> wLast x\<close> show False by simp
      next
        case False
        then have "i < wFirst x" "wFirst x < j" using fle gap by simp_all
        with consecutiveChanges_between [OF cc] b(1) show False by blast
      qed
    next
      case False
      then have "i < wLast x" "wLast x < j" using jle gap by simp_all
      with consecutiveChanges_between [OF cc] b(2) show False by blast
    qed
  qed
qed

text \<open>
  What the two loops do, for every operation sequence and context size: the hunks are the
  hunks of the windows of the outer loop; every window begins \<open>context\<close> operations before
  its first change, or at the start of the sequence, and ends \<open>context\<close> operations after its
  last change, or at the end of the sequence; every change lies between the first and the last
  change of some window; two changes with only equal operations between them, at most
  \<open>context\<close> of them, lie in the same window; and when more than \<open>context\<close> equal operations
  separate them, the inner loop has stopped in between: the earlier is the last change of a
  window and the later is the first change of a window.
\<close>

lemma hunkWindows_grouping:
  "buildDiffHunks operations context
     = map (hunkOfWindow operations) (hunkWindows operations context 0) \<and>
   (\<forall>w \<in> set (hunkWindows operations context 0).
      isChange operations (wFirst w) \<and> isChange operations (wLast w) \<and> wFirst w \<le> wLast w \<and>
      wStart w = wFirst w - context \<and>
      wEnd w = min (length operations - 1) (wLast w + context)) \<and>
   (\<forall>i. isChange operations i \<longrightarrow>
      (\<exists>w \<in> set (hunkWindows operations context 0). wFirst w \<le> i \<and> i \<le> wLast w)) \<and>
   (\<forall>i j. consecutiveChanges operations i j \<and> j - i - 1 \<le> context \<longrightarrow>
      (\<exists>w \<in> set (hunkWindows operations context 0). wFirst w \<le> i \<and> j \<le> wLast w)) \<and>
   (\<forall>i j. consecutiveChanges operations i j \<and> context < j - i - 1 \<longrightarrow>
      (\<exists>w \<in> set (hunkWindows operations context 0). wLast w = i) \<and>
      (\<exists>w \<in> set (hunkWindows operations context 0). wFirst w = j))"
proof (intro conjI ballI allI impI)
  show "buildDiffHunks operations context
     = map (hunkOfWindow operations) (hunkWindows operations context 0)"
    unfolding buildDiffHunks_def hunksFrom_windows hunkOfWindow_def ..
next
  fix w assume "w \<in> set (hunkWindows operations context 0)"
  then have v: "validWindow operations context w" by (rule hunkWindows_valid)
  note b = validWindow_bounds [OF v]
  show "isChange operations (wFirst w)" "isChange operations (wLast w)" "wFirst w \<le> wLast w"
    "wStart w = wFirst w - context"
    "wEnd w = min (length operations - 1) (wLast w + context)"
    by (rule b)+
next
  fix i assume "isChange operations i"
  then show "\<exists>w \<in> set (hunkWindows operations context 0). wFirst w \<le> i \<and> i \<le> wLast w"
    by (rule hunkWindows_cover) simp
next
  fix i j assume "consecutiveChanges operations i j \<and> j - i - 1 \<le> context"
  then show "\<exists>w \<in> set (hunkWindows operations context 0). wFirst w \<le> i \<and> j \<le> wLast w"
    using same_hunk by blast
next
  fix i j assume a: "consecutiveChanges operations i j \<and> context < j - i - 1"
  then show "\<exists>w \<in> set (hunkWindows operations context 0). wLast w = i"
    using split_hunks(1) by blast
  from a show "\<exists>w \<in> set (hunkWindows operations context 0). wFirst w = j"
    using split_hunks(2) by blast
qed

text \<open>
  Claim C4 (hunks that would overlap after padding are merged; two changes separated by at
  most twice \<open>context\<close> equal operations land in the same hunk) at old lines \<open>x a b c\<close> and new
  lines \<open>a b c y\<close> with context 2, the context the source uses. The operations are remove,
  equal, equal, equal, add: the changes at positions 0 and 4 have three equal operations
  between them, and padded by the context they cover positions 0 to 2 and 2 to 4, which share
  position 2. The inner loop stops at position 3, more than \<open>context\<close> after the change at 0,
  so the code returns two hunks, one for each change, where one merged hunk is due.
\<close>

theorem buildDiffHunks_unmerged:
  "map optype (buildLineOperations [''x'', ''a'', ''b'', ''c''] [''a'', ''b'', ''c'', ''y''])
     = [OpRemove, OpEqual, OpEqual, OpEqual, OpAdd] \<and>
   consecutiveChanges
     (buildLineOperations [''x'', ''a'', ''b'', ''c''] [''a'', ''b'', ''c'', ''y'']) 0 4 \<and>
   4 - 0 - 1 \<le> 2 * (2::nat) \<and>
   extendHunk (buildLineOperations [''x'', ''a'', ''b'', ''c''] [''a'', ''b'', ''c'', ''y''])
     2 1 0 0 = (2, 0) \<and>
   hunkWindows (buildLineOperations [''x'', ''a'', ''b'', ''c''] [''a'', ''b'', ''c'', ''y'']) 2 0
     = [\<lparr>wStart = 0, wEnd = 2, wFirst = 0, wLast = 0\<rparr>,
        \<lparr>wStart = 2, wEnd = 4, wFirst = 4, wLast = 4\<rparr>] \<and>
   map lines (buildDiffHunks
     (buildLineOperations [''x'', ''a'', ''b'', ''c''] [''a'', ''b'', ''c'', ''y'']) 2)
     = [[''-x'', '' a'', '' b''], ['' b'', '' c'', ''+y'']]"
  by code_simp

subsection \<open>Order and overlap of the hunks\<close>

text \<open>
  The windows come in the order of the operations: each later window starts later, ends later
  and has its first change after the last change of the earlier one. The start of a window
  may still lie before the end of the window before it, as the example after the lemmas shows.
\<close>

lemma hunkWindows_from_cursor:
  "w \<in> set (hunkWindows operations ctx cursor) \<Longrightarrow> cursor \<le> wFirst w"
proof (induction operations ctx cursor rule: hunkWindows.induct)
  case (1 operations ctx cursor)
  show ?case
  proof (cases "cursor < length operations")
    case False
    with "1.prems" show ?thesis by (simp add: hunkWindows_Nil1)
  next
    case True
    show ?thesis
    proof (cases "findFirstChange operations cursor")
      case None
      with "1.prems" show ?thesis by (simp add: hunkWindows_Nil2)
    next
      case (Some f)
      let ?w = "hunkWindow operations ctx f"
      have cf: "cursor \<le> f" using findFirstChange_Some [OF Some] by simp
      from "1.prems" have "w = ?w \<or> w \<in> set (hunkWindows operations ctx (wEnd ?w + 1))"
        by (simp add: hunkWindows_Cons [OF True Some])
      then show ?thesis
      proof
        assume "w = ?w"
        then show ?thesis using cf by simp
      next
        assume "w \<in> set (hunkWindows operations ctx (wEnd ?w + 1))"
        with True Some refl have "wEnd ?w + 1 \<le> wFirst w" by (rule "1.IH")
        moreover have "f \<le> wEnd ?w"
          using findFirstChange_Some [OF Some] by (intro hunkWindow_end_ge) (simp add: isChange_def)
        ultimately show ?thesis using cf by simp
      qed
    qed
  qed
qed

lemma hunkWindows_ordered: "sorted_wrt windowBefore (hunkWindows operations ctx cursor)"
proof (induction operations ctx cursor rule: hunkWindows.induct)
  case (1 operations ctx cursor)
  show ?case
  proof (cases "cursor < length operations")
    case False
    then show ?thesis by (simp add: hunkWindows_Nil1)
  next
    case True
    show ?thesis
    proof (cases "findFirstChange operations cursor")
      case None
      then show ?thesis by (simp add: hunkWindows_Nil2)
    next
      case (Some f)
      let ?v = "hunkWindow operations ctx f"
      have vv: "validWindow operations ctx ?v"
        using findFirstChange_Some [OF Some] by (simp add: hunkWindow_valid)
      note bv = validWindow_bounds [OF vv]
      have "windowBefore ?v w" if w: "w \<in> set (hunkWindows operations ctx (wEnd ?v + 1))" for w
      proof -
        have vw: "validWindow operations ctx w" using w by (rule hunkWindows_valid)
        note bw = validWindow_bounds [OF vw]
        have c: "wEnd ?v + 1 \<le> wFirst w" using w by (rule hunkWindows_from_cursor)
        have lv: "wLast ?v < length operations" using bv(2) by (simp add: isChange_def)
        have lw: "wLast w < length operations" using bw(2) by (simp add: isChange_def)
        have ev: "wLast ?v \<le> wEnd ?v" using bv(5) lv by simp
        then have lt: "wLast ?v < wFirst w" using c by simp
        have far: "wLast ?v + ctx + 1 < wFirst w"
        proof (rule ccontr)
          assume "\<not> wLast ?v + ctx + 1 < wFirst w"
          with lt validWindow_gap [OF vv, of "wFirst w"] bw(1) show False by simp
        qed
        have "wStart ?v < wStart w" using far bv(3,4) bw(4) by simp
        moreover have "wEnd ?v < wEnd w" using c bw(3,5) lw by simp
        ultimately show ?thesis using lt by (simp add: windowBefore_def)
      qed
      moreover have "sorted_wrt windowBefore (hunkWindows operations ctx (wEnd ?v + 1))"
        using True Some refl by (rule "1.IH")
      ultimately show ?thesis by (simp add: hunkWindows_Cons [OF True Some])
    qed
  qed
qed

text \<open>
  Claim C3 (hunks do not overlap) at old lines \<open>x a b c\<close> and new lines \<open>a b c y\<close> with
  context 2, the context the source uses: the first hunk covers operations 0 to 2 and the
  second operations 2 to 4, so the equal operation for \<open>b\<close> (old line 3, new line 2) is in both
  hunks.
\<close>

theorem buildDiffHunks_overlap:
  "buildDiffHunks (buildLineOperations [''x'', ''a'', ''b'', ''c''] [''a'', ''b'', ''c'', ''y'']) 2
     = [\<lparr>oldStart = 1, oldCount = 3, newStart = 1, newCount = 2,
          lines = [''-x'', '' a'', '' b'']\<rparr>,
        \<lparr>oldStart = 3, oldCount = 2, newStart = 2, newCount = 3,
          lines = ['' b'', '' c'', ''+y'']\<rparr>]"
  by code_simp

section \<open>Properties of the patch normaliser\<close>

subsection \<open>The branches of the loop and the move directive\<close>

lemma startsWith_append [simp]: "startsWith (p @ s) p"
  by (simp add: startsWith_def)

lemma startsWith_Cons:
  "startsWith (c # cs) (d # ds) = (c = d \<and> startsWith cs ds)"
  by (auto simp: startsWith_def)

lemma startsWith_Nil [simp]: "startsWith s []" "startsWith [] (d # ds) = False"
  by (simp_all add: startsWith_def)

lemma isHunkBodyLine_Cons:
  "isHunkBodyLine ln = (\<exists>c cs. ln = c # cs \<and>
     (c = CHR ''+'' \<or> c = CHR ''-'' \<or> c = CHR '' '' \<or> (c = CHR ''@'' \<and> startsWith cs ''@'')))"
  by (cases ln) (auto simp: isHunkBodyLine_def startsWith_Cons)

lemma processLine_body:
  assumes "isHunkBodyLine ln"
  shows "processLine st ln = st\<lparr>outputLines := outputLines st @ [ln], hasDiffRows := True\<rparr>"
proof -
  obtain c cs where l: "ln = c # cs" and c: "c \<noteq> CHR ''*''"
    using assms unfolding isHunkBodyLine_Cons by auto
  show ?thesis
    unfolding processLine_def using assms c by (simp add: l startsWith_Cons)
qed

lemma foldl_body:
  "list_all isHunkBodyLine body \<Longrightarrow> body \<noteq> [] \<Longrightarrow>
   foldl processLine st body = st\<lparr>outputLines := outputLines st @ body, hasDiffRows := True\<rparr>"
proof (induction body arbitrary: st)
  case Nil
  then show ?case by simp
next
  case (Cons b body)
  show ?case
  proof (cases "body = []")
    case True
    with Cons.prems show ?thesis by (simp add: processLine_body)
  next
    case False
    with Cons show ?thesis by (simp add: processLine_body)
  qed
qed

lemma processLine_header:
  "processLine st (headerLine mode path) = startFile mode path st"
  by (cases mode) (simp_all add: processLine_def headerLine_def startsWith_Cons)

lemma processLine_move:
  "processLine st (''*** Move to: '' @ d) = moveTo (''*** Move to: '' @ d) st"
  by (simp add: processLine_def startsWith_Cons)

lemma foldl_body_fields:
  "list_all isHunkBodyLine body \<Longrightarrow>
   outputLines (foldl processLine st body) = outputLines st @ body \<and>
   headerDiffIndex (foldl processLine st body) = headerDiffIndex st \<and>
   headerOldIndex (foldl processLine st body) = headerOldIndex st \<and>
   headerNewIndex (foldl processLine st body) = headerNewIndex st \<and>
   oldPath (foldl processLine st body) = oldPath st \<and>
   newPath (foldl processLine st body) = newPath st"
  by (induction body arbitrary: st) (simp_all add: processLine_body)

lemma update_header_lines:
  "(xs @ [h1, h2, h3] @ body)[length xs := v] = xs @ [v, h2, h3] @ body"
  "(xs @ [h1, h2, h3] @ body)[length xs + 2 := w] = xs @ [h1, h2, w] @ body"
  by (simp_all add: list_update_append)

text \<open>
  Claim C8. From any state of the normaliser, let a file header with a path that is not blank
  be followed by any number of hunk-body lines, and then by a \<^verbatim>\<open>*** Move to: \<close> line with a
  destination that is not blank. Before the move the output is the old output, the three
  header lines of the path and the body lines. After it, the \<open>diff --git\<close> line and the
  \<open>+++\<close> line name \<open>b/\<close> and the destination, while the \<open>---\<close> line and every body line are
  as before. The statement covers the three kinds of header.
\<close>

theorem moveTo_rewrites_header:
  assumes path: "trim path \<noteq> []" and dest: "trim dest \<noteq> []"
    and body: "list_all isHunkBodyLine body"
  shows "outputLines (foldl processLine st ([headerLine mode path] @ body))
      = outputLines st @
          [''diff --git '' @ (if mode = ModeAdd then ''/dev/null'' else ''a/'' @ trim path)
             @ '' '' @ (if mode = ModeDelete then ''/dev/null'' else ''b/'' @ trim path),
           ''--- '' @ (if mode = ModeAdd then ''/dev/null'' else ''a/'' @ trim path),
           ''+++ '' @ (if mode = ModeDelete then ''/dev/null'' else ''b/'' @ trim path)]
          @ body \<and>
    outputLines (foldl processLine st ([headerLine mode path] @ body @ [''*** Move to: '' @ dest]))
      = outputLines st @
          [''diff --git '' @ (if mode = ModeAdd then ''/dev/null'' else ''a/'' @ trim path)
             @ '' b/'' @ trim dest,
           ''--- '' @ (if mode = ModeAdd then ''/dev/null'' else ''a/'' @ trim path),
           ''+++ b/'' @ trim dest]
          @ body"
proof -
  let ?old = "if mode = ModeAdd then ''/dev/null'' else ''a/'' @ trim path"
  let ?new = "if mode = ModeDelete then ''/dev/null'' else ''b/'' @ trim path"
  let ?h1 = "''diff --git '' @ ?old @ '' '' @ ?new"
  let ?h2 = "''--- '' @ ?old"
  let ?h3 = "''+++ '' @ ?new"
  let ?n = "length (outputLines st)"
  let ?st1 = "startFile mode path st"
  let ?st2 = "foldl processLine ?st1 body"
  have s1: "outputLines ?st1 = outputLines st @ [?h1, ?h2, ?h3]"
    "headerDiffIndex ?st1 = int ?n" "headerNewIndex ?st1 = int ?n + 2" "oldPath ?st1 = ?old"
    using path by (simp_all add: startFile_def Let_def)
  note f = foldl_body_fields [OF body, of ?st1]
  have s2: "outputLines ?st2 = outputLines st @ [?h1, ?h2, ?h3] @ body"
    "headerDiffIndex ?st2 = int ?n" "headerNewIndex ?st2 = int ?n + 2" "oldPath ?st2 = ?old"
    using f s1 by simp_all
  have d: "trim (drop (length ''*** Move to: '') (''*** Move to: '' @ dest)) = trim dest"
    by simp
  have n2: "nat (int ?n + 2) = ?n + 2" by simp
  have lt: "?n < length (outputLines st @ [?h1, ?h2, ?h3] @ body)"
    "?n + 2 < length (outputLines st @ [''diff --git '' @ ?old @ '' b/'' @ trim dest, ?h2, ?h3] @ body)"
    by simp_all
  have "outputLines (moveTo (''*** Move to: '' @ dest) ?st2)
      = outputLines st @ [''diff --git '' @ ?old @ '' b/'' @ trim dest, ?h2, ''+++ b/'' @ trim dest] @ body"
    unfolding moveTo_def Let_def d s2 arraySet_def n2 nat_int
    using dest lt by (simp only: if_True if_False update_header_lines
        patchState.simps of_nat_0_le_iff append_assoc)
       (simp add: update_header_lines)
  moreover have "foldl processLine st ([headerLine mode path] @ body @ [''*** Move to: '' @ dest])
      = moveTo (''*** Move to: '' @ dest) ?st2"
    by (simp only: foldl_append foldl.simps processLine_header processLine_move)
  moreover have "foldl processLine st ([headerLine mode path] @ body) = ?st2"
    by (simp only: foldl_append foldl.simps processLine_header)
  ultimately show ?thesis using s2(1) by simp
qed

text \<open>
  The hypotheses of C8 at an update of \<open>a.txt\<close> with two body lines that is moved to
  \<open>b.txt\<close>, from the initial state.
\<close>

theorem moveTo_rewrites_header_witness:
  "trim ''a.txt'' \<noteq> [] \<and> trim ''b.txt'' \<noteq> [] \<and> list_all isHunkBodyLine [''@@'', ''-x''] \<and>
   outputLines (foldl processLine initialPatchState
       [''*** Update File: a.txt'', ''@@'', ''-x''])
     = [''diff --git a/a.txt b/a.txt'', ''--- a/a.txt'', ''+++ b/a.txt'', ''@@'', ''-x''] \<and>
   outputLines (foldl processLine initialPatchState
       [''*** Update File: a.txt'', ''@@'', ''-x'', ''*** Move to: b.txt''])
     = [''diff --git a/a.txt b/b.txt'', ''--- a/a.txt'', ''+++ b/b.txt'', ''@@'', ''-x'']"
proof -
  have h: "trim ''a.txt'' \<noteq> []" "trim ''b.txt'' \<noteq> []" "list_all isHunkBodyLine [''@@'', ''-x'']"
    by code_simp+
  have t: "trim ''a.txt'' = ''a.txt''" "trim ''b.txt'' = ''b.txt''" by code_simp+
  have l: "headerLine ModeUpdate ''a.txt'' = ''*** Update File: a.txt''"
    by (simp add: headerLine_def)
  from moveTo_rewrites_header [OF h, of initialPatchState ModeUpdate]
  show ?thesis using h unfolding t l by (simp add: initialPatchState_def)
qed
subsection \<open>The normaliser on a record of a hint and a text\<close>

lemma firstDefined_single [simp]: "firstDefined [x] = x"
  by (cases x) simp_all

lemma convert_nonEmpty:
  "convertApplyPatchToUnifiedDiff (nonEmpty s) = convertApplyPatchToUnifiedDiff (Some s)"
  by (simp add: nonEmpty_def convertApplyPatchToUnifiedDiff_def)

lemma extract_nonEmpty:
  "extractApplyPatchFirstPath (nonEmpty s) = extractApplyPatchFirstPath (Some s)"
  by (simp add: nonEmpty_def extractApplyPatchFirstPath_def)

lemma asNonEmptyString_JString: "asNonEmptyString (Some (JString s)) = nonEmpty (trim s)"
  by (simp add: asNonEmptyString_def nonEmpty_def Let_def)

lemma asNonEmptyString_None: "asNonEmptyString None = None"
  by (simp add: asNonEmptyString_def)

lemma strIncludes_Nil: "strIncludes [] (c # cs) = False"
  by (simp add: strIncludes_def)

lemma normalizePatch_eq:
  "normalizePatch rawText operationHint =
     (if strIncludes (toLowerCase (trim operationHint)) ''apply_patch'' \<or>
         strIncludes (trim rawText) ''*** Begin Patch''
      then convertApplyPatchToUnifiedDiff (Some (trim rawText)) else None,
      extractApplyPatchFirstPath (Some (trim rawText)))"
proof -
  let ?parsed = "[(''name'', JString operationHint), (''input'', JString rawText)]"
  have g: "getProp ?parsed ''name'' = Some (JString operationHint)"
    "getProp ?parsed ''input'' = Some (JString rawText)"
    "getProp ?parsed ''args'' = None" "getProp ?parsed ''arguments'' = None"
    "getProp ?parsed ''tool'' = None" "getProp ?parsed ''type'' = None"
    "getProp ?parsed ''operation'' = None" "getProp ?parsed ''mode'' = None"
    "getProp ?parsed ''file_path'' = None" "getProp ?parsed ''path'' = None"
    "getProp ?parsed ''file'' = None" "getProp ?parsed ''diff'' = None"
    "getProp ?parsed ''patch'' = None"
    by (simp_all add: getProp_def)
  have o: "asObject (Some (JString rawText)) = None" "asObject None = None"
    "asObject (Some (JObject ?parsed)) = Some ?parsed"
    by (simp_all add: asObject_def)
  have l: "looksLikeApplyPatchPayload ?parsed ?parsed =
      (strIncludes (toLowerCase (trim operationHint)) ''apply_patch'' \<or>
       strIncludes (trim rawText) ''*** Begin Patch'')"
    unfolding looksLikeApplyPatchPayload_def g asNonEmptyString_JString asNonEmptyString_None
    by (cases "trim operationHint = []"; cases "trim rawText = []")
       (simp_all add: nonEmpty_def List.map_filter_simps joinWith_def toLowerCase_def strIncludes_Nil)
  have a: "firstDefined [asNonEmptyString (getProp ?parsed ''input''),
      asNonEmptyString (getProp ?parsed ''input''),
      asNonEmptyString (getProp ?parsed ''arguments'')] = nonEmpty (trim rawText)"
    unfolding g asNonEmptyString_JString asNonEmptyString_None
    by (simp add: nonEmpty_def)
  have d: "firstDefined [asNonEmptyString (getProp ?parsed ''diff''),
      asNonEmptyString (getProp ?parsed ''patch''),
      asNonEmptyString (getProp ?parsed ''diff''),
      asNonEmptyString (getProp ?parsed ''patch'')] = None"
    unfolding g asNonEmptyString_None by simp
  have f: "firstDefined [asNonEmptyString (getProp ?parsed ''file_path''),
      asNonEmptyString (getProp ?parsed ''path''),
      asNonEmptyString (getProp ?parsed ''file''),
      asNonEmptyString (getProp ?parsed ''file_path''),
      asNonEmptyString (getProp ?parsed ''path'')] = None"
    unfolding g asNonEmptyString_None by simp
  have p: "(case firstDefined [asObject (getProp ?parsed ''input''), asObject (getProp ?parsed ''args'')]
      of Some r \<Rightarrow> r | None \<Rightarrow> ?parsed) = ?parsed"
    unfolding g o by simp
  show ?thesis
    unfolding normalizePatch_def parseToolEditPayload_def o option.case Let_def p a d f l
      convert_nonEmpty extract_nonEmpty
    by (cases "extractApplyPatchFirstPath (Some (trim rawText))") simp_all
qed
subsection \<open>When the conversion gives nothing\<close>

lemma star_not_body: "startsWith ln (CHR ''*'' # p) \<Longrightarrow> \<not> isHunkBodyLine ln"
  by (cases ln) (auto simp: isHunkBodyLine_Cons startsWith_Cons)

lemma hasDiffRows_startFile [simp]: "hasDiffRows (startFile mode path st) = hasDiffRows st"
  by (simp add: startFile_def Let_def)

lemma hasDiffRows_moveTo [simp]: "hasDiffRows (moveTo ln st) = hasDiffRows st"
  by (simp add: moveTo_def Let_def)
















text \<open>
  Claim C6. For the patch text that adds \<open>a.txt\<close> with the one line \<open>hello\<close>, under any hint
  (the text holds the marker \<^verbatim>\<open>*** Begin Patch\<close>): the diff text has the lines
  \<open>--- /dev/null\<close>, \<open>+++ b/a.txt\<close> and \<open>+hello\<close>, and the primary path is \<open>a.txt\<close>.
\<close>

theorem normalizePatch_add_file:
  "normalizePatch
     ''*** Begin Patch\<newline>*** Add File: a.txt\<newline>@@ -0,0 +1,1 @@\<newline>+hello\<newline>*** End Patch''
     operationHint
     = (Some ''diff --git /dev/null b/a.txt\<newline>--- /dev/null\<newline>+++ b/a.txt\<newline>@@ -0,0 +1,1 @@\<newline>+hello'',
        Some ''a.txt'') \<and>
   splitLines ''diff --git /dev/null b/a.txt\<newline>--- /dev/null\<newline>+++ b/a.txt\<newline>@@ -0,0 +1,1 @@\<newline>+hello''
     = [''diff --git /dev/null b/a.txt'', ''--- /dev/null'', ''+++ b/a.txt'', ''@@ -0,0 +1,1 @@'',
        ''+hello'']"
proof -
  let ?p = "''*** Begin Patch\<newline>*** Add File: a.txt\<newline>@@ -0,0 +1,1 @@\<newline>+hello\<newline>*** End Patch''"
  have 1: "strIncludes (trim ?p) ''*** Begin Patch''" by code_simp
  have 2: "convertApplyPatchToUnifiedDiff (Some (trim ?p))
      = Some ''diff --git /dev/null b/a.txt\<newline>--- /dev/null\<newline>+++ b/a.txt\<newline>@@ -0,0 +1,1 @@\<newline>+hello''"
    by code_simp
  have 3: "extractApplyPatchFirstPath (Some (trim ?p)) = Some ''a.txt''" by code_simp
  have 4: "splitLines ''diff --git /dev/null b/a.txt\<newline>--- /dev/null\<newline>+++ b/a.txt\<newline>@@ -0,0 +1,1 @@\<newline>+hello''
     = [''diff --git /dev/null b/a.txt'', ''--- /dev/null'', ''+++ b/a.txt'', ''@@ -0,0 +1,1 @@'',
        ''+hello'']"
    by code_simp
  show ?thesis unfolding normalizePatch_eq using 1 2 3 4 by simp
qed

section \<open>Properties of the payload extraction\<close>

lemma firstDefined_first:
  "k < length xs \<Longrightarrow> xs ! k = Some v \<Longrightarrow> (\<forall>j<k. xs ! j = None) \<Longrightarrow>
   firstDefined (xs @ rest) = Some v"
proof (induction xs arbitrary: k)
  case Nil
  then show ?case by simp
next
  case (Cons x xs)
  show ?case
  proof (cases k)
    case 0
    with Cons.prems show ?thesis by simp
  next
    case (Suc k')
    have "x = None" using Cons.prems(3) Suc by auto
    moreover have "firstDefined (xs @ rest) = Some v"
    proof (rule Cons.IH)
      show "k' < length xs" using Cons.prems(1) Suc by simp
      show "xs ! k' = Some v" using Cons.prems(2) Suc by simp
      show "\<forall>j<k'. xs ! j = None"
      proof (intro allI impI)
        fix j assume "j < k'"
        then have "Suc j < k" using Suc by simp
        with Cons.prems(3) have "(x # xs) ! Suc j = None" by blast
        then show "xs ! j = None" by simp
      qed
    qed
    ultimately show ?thesis by simp
  qed
qed

lemma firstDefined_none:
  "(\<forall>j<length xs. xs ! j = None) \<Longrightarrow> firstDefined (xs @ rest) = firstDefined rest"
proof (induction xs)
  case Nil
  then show ?case by simp
next
  case (Cons x xs)
  have "x = None" using Cons.prems by auto
  moreover have "\<forall>j<length xs. xs ! j = None"
  proof (intro allI impI)
    fix j assume "j < length xs"
    then have "(x # xs) ! Suc j = None" using Cons.prems by auto
    then show "xs ! j = None" by simp
  qed
  ultimately show ?case using Cons.IH by simp
qed

lemma asString_None_iff: "(asString (getProp r key) = None) = (\<not> isStringAt r key)"
  by (auto simp: asString_def isStringAt_def split: option.splits json.splits)

lemma asNonEmptyString_None_iff:
  "(asNonEmptyString (getProp r key) = None) = (\<not> isNonBlankStringAt r key)"
  by (auto simp: asNonEmptyString_def isNonBlankStringAt_def Let_def split: option.splits json.splits)

lemma chain_first:
  assumes "k < length aliases" "f (getProp r (aliases ! k)) = Some v"
    "\<forall>j<k. f (getProp r (aliases ! j)) = None"
  shows "firstDefined (map (\<lambda>a. f (getProp r a)) aliases @ rest) = Some v"
  using assms by (intro firstDefined_first [where k = k]) simp_all

lemma chain_none:
  assumes "\<forall>j<length aliases. f (getProp r (aliases ! j)) = None"
  shows "firstDefined (map (\<lambda>a. f (getProp r a)) aliases @ rest) = firstDefined rest"
  using assms by (intro firstDefined_none) simp_all

lemma parseToolEditPayload_fields:
  "\<exists>e. parseToolEditPayload (Some (JObject parsed)) = Some e \<and>
     newText e = firstDefined (map (\<lambda>a. asString (getProp (payloadOf parsed) a)) newTextAliases
                    @ [asString (getProp parsed ''new_string'')]) \<and>
     oldText e = firstDefined (map (\<lambda>a. asString (getProp (payloadOf parsed) a)) oldTextAliases
                    @ [asString (getProp parsed ''old_string'')]) \<and>
     filePath e = firstDefined
        (map (\<lambda>a. asNonEmptyString (getProp (payloadOf parsed) a)) filePathAliases
           @ [asNonEmptyString (getProp parsed ''file_path''),
              asNonEmptyString (getProp parsed ''path''),
              extractApplyPatchFirstPath
                (firstDefined [asNonEmptyString (getProp parsed ''input''),
                               asNonEmptyString (getProp (payloadOf parsed) ''input''),
                               asNonEmptyString (getProp parsed ''arguments'')])]) \<and>
     diff e = firstDefined
        (map (\<lambda>a. asNonEmptyString (getProp (payloadOf parsed) a)) diffAliases
           @ [asNonEmptyString (getProp parsed ''diff''),
              asNonEmptyString (getProp parsed ''patch''),
              if looksLikeApplyPatchPayload parsed (payloadOf parsed)
              then convertApplyPatchToUnifiedDiff
                     (firstDefined [asNonEmptyString (getProp parsed ''input''),
                                    asNonEmptyString (getProp (payloadOf parsed) ''input''),
                                    asNonEmptyString (getProp parsed ''arguments'')])
              else None])"
proof -
  have fd2: "firstDefined [a, b] = firstDefined ([a] @ [b])" for a b :: "string option"
    by simp
  have fd: "firstDefined [firstDefined xs, y] = firstDefined (xs @ [y])" for xs and y :: "string option"
    by (induction xs rule: firstDefined.induct) simp_all
  show ?thesis
    unfolding parseToolEditPayload_def Let_def payloadOf_def [symmetric]
    by (simp add: asObject_def newTextAliases_def oldTextAliases_def filePathAliases_def
        diffAliases_def fd [of "[a, b, c, d, e]" for a b c d e, simplified]
        fd [of "[a, b, c, d]" for a b c d, simplified])
qed
lemma asString_JString: "getProp r key = Some (JString s) \<Longrightarrow> asString (getProp r key) = Some s"
  by (simp add: asString_def)

lemma asNonEmptyString_trim:
  "getProp r key = Some (JString s) \<Longrightarrow> trim s \<noteq> [] \<Longrightarrow>
   asNonEmptyString (getProp r key) = Some (trim s)"
  by (simp add: asNonEmptyString_def Let_def)

text \<open>
  Claim C9, as amended. For every parsed record, the payload is extracted, and: \<open>newText\<close> is
  the value of the first alias of its chain that the payload binds to a string, whatever the
  string, the empty one included; when the payload binds none of them to a string, it is
  \<open>new_string\<close> of the top-level record if that is a string; the same holds for \<open>oldText\<close>,
  its chain and \<open>old_string\<close>. \<open>filePath\<close> and \<open>diff\<close> are the trimmed value of the first
  alias of their chains that the payload binds to a string that is not blank. An alias bound
  to a value that is not a string is passed over in each chain.
\<close>

theorem parseToolEditPayload_aliases:
  "\<exists>e. parseToolEditPayload (Some (JObject parsed)) = Some e \<and>
     (\<forall>k s. k < length newTextAliases \<and>
            getProp (payloadOf parsed) (newTextAliases ! k) = Some (JString s) \<and>
            (\<forall>j<k. \<not> isStringAt (payloadOf parsed) (newTextAliases ! j))
          \<longrightarrow> newText e = Some s) \<and>
     ((\<forall>j<length newTextAliases. \<not> isStringAt (payloadOf parsed) (newTextAliases ! j))
          \<longrightarrow> newText e = asString (getProp parsed ''new_string'')) \<and>
     (\<forall>k s. k < length oldTextAliases \<and>
            getProp (payloadOf parsed) (oldTextAliases ! k) = Some (JString s) \<and>
            (\<forall>j<k. \<not> isStringAt (payloadOf parsed) (oldTextAliases ! j))
          \<longrightarrow> oldText e = Some s) \<and>
     ((\<forall>j<length oldTextAliases. \<not> isStringAt (payloadOf parsed) (oldTextAliases ! j))
          \<longrightarrow> oldText e = asString (getProp parsed ''old_string'')) \<and>
     (\<forall>k s. k < length filePathAliases \<and>
            getProp (payloadOf parsed) (filePathAliases ! k) = Some (JString s) \<and>
            trim s \<noteq> [] \<and>
            (\<forall>j<k. \<not> isNonBlankStringAt (payloadOf parsed) (filePathAliases ! j))
          \<longrightarrow> filePath e = Some (trim s)) \<and>
     (\<forall>k s. k < length diffAliases \<and>
            getProp (payloadOf parsed) (diffAliases ! k) = Some (JString s) \<and>
            trim s \<noteq> [] \<and>
            (\<forall>j<k. \<not> isNonBlankStringAt (payloadOf parsed) (diffAliases ! j))
          \<longrightarrow> diff e = Some (trim s))"
proof -
  let ?p = "payloadOf parsed"
  obtain e where e: "parseToolEditPayload (Some (JObject parsed)) = Some e"
    and n: "newText e = firstDefined (map (\<lambda>a. asString (getProp ?p a)) newTextAliases
                    @ [asString (getProp parsed ''new_string'')])"
    and o: "oldText e = firstDefined (map (\<lambda>a. asString (getProp ?p a)) oldTextAliases
                    @ [asString (getProp parsed ''old_string'')])"
    and f: "filePath e = firstDefined
        (map (\<lambda>a. asNonEmptyString (getProp ?p a)) filePathAliases
           @ [asNonEmptyString (getProp parsed ''file_path''),
              asNonEmptyString (getProp parsed ''path''),
              extractApplyPatchFirstPath
                (firstDefined [asNonEmptyString (getProp parsed ''input''),
                               asNonEmptyString (getProp ?p ''input''),
                               asNonEmptyString (getProp parsed ''arguments'')])])"
    and d: "diff e = firstDefined
        (map (\<lambda>a. asNonEmptyString (getProp ?p a)) diffAliases
           @ [asNonEmptyString (getProp parsed ''diff''),
              asNonEmptyString (getProp parsed ''patch''),
              if looksLikeApplyPatchPayload parsed ?p
              then convertApplyPatchToUnifiedDiff
                     (firstDefined [asNonEmptyString (getProp parsed ''input''),
                                    asNonEmptyString (getProp ?p ''input''),
                                    asNonEmptyString (getProp parsed ''arguments'')])
              else None])"
    using parseToolEditPayload_fields [of parsed] by blast
  have strFirst: "firstDefined (map (\<lambda>a. asString (getProp ?p a)) aliases @ rest) = Some s"
    if "k < length aliases" "getProp ?p (aliases ! k) = Some (JString s)"
      "\<forall>j<k. \<not> isStringAt ?p (aliases ! j)" for aliases k s rest
    using that by (intro chain_first [where k = k]) (simp_all add: asString_def asString_None_iff [unfolded asString_def])
  have strNone: "firstDefined (map (\<lambda>a. asString (getProp ?p a)) aliases @ [x]) = x"
    if "\<forall>j<length aliases. \<not> isStringAt ?p (aliases ! j)" for aliases x
    using that chain_none [of aliases asString ?p "[x]"] by (simp add: asString_None_iff)
  have nbFirst: "firstDefined (map (\<lambda>a. asNonEmptyString (getProp ?p a)) aliases @ rest)
      = Some (trim s)"
    if "k < length aliases" "getProp ?p (aliases ! k) = Some (JString s)" "trim s \<noteq> []"
      "\<forall>j<k. \<not> isNonBlankStringAt ?p (aliases ! j)" for aliases k s rest
    using that
    by (intro chain_first [where k = k])
       (simp_all add: asNonEmptyString_JString nonEmpty_def asNonEmptyString_None_iff)
  show ?thesis
  proof (intro exI [of _ e] conjI allI impI)
    show "parseToolEditPayload (Some (JObject parsed)) = Some e" by (rule e)
  next
    fix k s
    assume "k < length newTextAliases \<and> getProp ?p (newTextAliases ! k) = Some (JString s) \<and>
        (\<forall>j<k. \<not> isStringAt ?p (newTextAliases ! j))"
    then show "newText e = Some s" unfolding n using strFirst by blast
  next
    assume "\<forall>j<length newTextAliases. \<not> isStringAt ?p (newTextAliases ! j)"
    then show "newText e = asString (getProp parsed ''new_string'')"
      unfolding n by (rule strNone)
  next
    fix k s
    assume "k < length oldTextAliases \<and> getProp ?p (oldTextAliases ! k) = Some (JString s) \<and>
        (\<forall>j<k. \<not> isStringAt ?p (oldTextAliases ! j))"
    then show "oldText e = Some s" unfolding o using strFirst by blast
  next
    assume "\<forall>j<length oldTextAliases. \<not> isStringAt ?p (oldTextAliases ! j)"
    then show "oldText e = asString (getProp parsed ''old_string'')"
      unfolding o by (rule strNone)
  next
    fix k s
    assume "k < length filePathAliases \<and> getProp ?p (filePathAliases ! k) = Some (JString s) \<and>
        trim s \<noteq> [] \<and> (\<forall>j<k. \<not> isNonBlankStringAt ?p (filePathAliases ! j))"
    then show "filePath e = Some (trim s)" unfolding f using nbFirst by blast
  next
    fix k s
    assume "k < length diffAliases \<and> getProp ?p (diffAliases ! k) = Some (JString s) \<and>
        trim s \<noteq> [] \<and> (\<forall>j<k. \<not> isNonBlankStringAt ?p (diffAliases ! j))"
    then show "diff e = Some (trim s)" unfolding d using nbFirst by blast
  qed
qed

text \<open>
  The hypotheses of C9 at a record whose \<open>new_string\<close> is a number and whose \<open>content\<close> is the
  empty string: the number is passed over, the empty string is taken, and the later alias
  \<open>text\<close> is not reached.
\<close>

theorem parseToolEditPayload_aliases_witness:
  "(3::nat) < length newTextAliases \<and>
   getProp (payloadOf [(''new_string'', JNumber 3), (''content'', JString []), (''text'', JString ''x'')])
     (newTextAliases ! 3) = Some (JString []) \<and>
   \<not> isStringAt (payloadOf [(''new_string'', JNumber 3), (''content'', JString []), (''text'', JString ''x'')])
     (newTextAliases ! 0) \<and>
   \<not> isStringAt (payloadOf [(''new_string'', JNumber 3), (''content'', JString []), (''text'', JString ''x'')])
     (newTextAliases ! 1) \<and>
   \<not> isStringAt (payloadOf [(''new_string'', JNumber 3), (''content'', JString []), (''text'', JString ''x'')])
     (newTextAliases ! 2) \<and>
   (\<exists>e. parseToolEditPayload
          (Some (JObject [(''new_string'', JNumber 3), (''content'', JString []), (''text'', JString ''x'')]))
        = Some e \<and> newText e = Some [])"
proof -
  let ?r = "[(''new_string'', JNumber 3), (''content'', JString []), (''text'', JString ''x'')]"
  have h: "(3::nat) < length newTextAliases"
    "getProp (payloadOf ?r) (newTextAliases ! 3) = Some (JString [])"
    "\<not> isStringAt (payloadOf ?r) (newTextAliases ! 0)"
    "\<not> isStringAt (payloadOf ?r) (newTextAliases ! 1)"
    "\<not> isStringAt (payloadOf ?r) (newTextAliases ! 2)"
    by code_simp+
  have b: "\<forall>j<3. \<not> isStringAt (payloadOf ?r) (newTextAliases ! j)"
  proof (intro allI impI)
    fix j :: nat assume "j < 3"
    then consider "j = 0" | "j = 1" | "j = 2" by linarith
    then show "\<not> isStringAt (payloadOf ?r) (newTextAliases ! j)"
      using h(3,4,5) by cases simp_all
  qed
  from parseToolEditPayload_aliases [of ?r] h(1,2) b
  have "\<exists>e. parseToolEditPayload (Some (JObject ?r)) = Some e \<and> newText e = Some []"
    by blast
  with h show ?thesis by blast
qed

text \<open>
  Claim C9 as stated fails: with \<open>new_string\<close> bound to the empty string and \<open>content\<close> to
  \<open>x\<close>, the first alias with a non-empty string is \<open>content\<close>, yet \<open>newText\<close> is the empty
  string.
\<close>

theorem parseToolEditPayload_empty_alias_counterexample:
  "parseToolEditPayload
     (Some (JObject [(''new_string'', JString []), (''content'', JString ''x'')]))
   = Some \<lparr>filePath = None, oldText = None, newText = Some [], diff = None\<rparr>"
  by code_simp

section \<open>Properties of the diff rows\<close>

subsection \<open>A header line with the starting values of the cursors\<close>

lemma lineAt_Cons_Suc [simp]: "lineAt (h # lns) (Suc i) = lineAt lns i"
  by (simp add: lineAt_def)

lemma lineAt_Cons_0 [simp]: "lineAt (h # lns) 0 = h"
  by (simp add: lineAt_def)

lemma diffRowsFrom_done: "\<not> index < length lns \<Longrightarrow> diffRowsFrom lns index oldLn newLn = []"
  by (subst diffRowsFrom.simps) simp

lemma diffRowsFrom_step:
  "index < length lns \<Longrightarrow>
   rowStep (lineAt lns index) (lineAt lns (index + 1)) oldLn newLn = (rows, step, oldLn', newLn') \<Longrightarrow>
   diffRowsFrom lns index oldLn newLn = rows @ diffRowsFrom lns (index + step) oldLn' newLn'"
  by (subst diffRowsFrom.simps) simp

lemma diffRowsFrom_shift:
  "diffRowsFrom (h # lns) (index + 1) oldLn newLn = diffRowsFrom lns index oldLn newLn"
proof (induction lns index oldLn newLn rule: diffRowsFrom.induct)
  case (1 lns index oldLn newLn)
  show ?case
  proof (cases "index < length lns")
    case False
    then show ?thesis by (simp add: diffRowsFrom_done)
  next
    case True
    obtain rows step oldLn' newLn' where
      r: "rowStep (lineAt lns index) (lineAt lns (index + 1)) oldLn newLn
            = (rows, step, oldLn', newLn')"
      by (cases "rowStep (lineAt lns index) (lineAt lns (index + 1)) oldLn newLn") auto
    have "diffRowsFrom (h # lns) (index + 1) oldLn newLn
        = rows @ diffRowsFrom (h # lns) (index + 1 + step) oldLn' newLn'"
      using True r by (intro diffRowsFrom_step) simp_all
    also have "diffRowsFrom (h # lns) (index + 1 + step) oldLn' newLn'
        = diffRowsFrom lns (index + step) oldLn' newLn'"
      using "1.IH" [OF True r [symmetric] refl refl] by (simp add: add.commute add.left_commute)
    finally show ?thesis using diffRowsFrom_step [OF True r] by simp
  qed
qed

lemma parseDiffHunkStart_one: "parseDiffHunkStart ''@@ -1 +1 @@'' = Some (1, 1)"
  by (simp add: parseDiffHunkStart_def matchHunkStartAt_def startsWith_def skipCount_def
      isDigit_def decimalValue_def isFiniteNumber_def Let_def)

lemma rowStep_header_one:
  "rowStep ''@@ -1 +1 @@'' nextLine 1 1 = ([metaRow ''@@ -1 +1 @@''], 1, 1, 1)"
  unfolding rowStep_def parseDiffHunkStart_one by (simp add: startsWith_def)

lemma splitLines_header_one:
  "splitLines (''@@ -1 +1 @@'' @ CHR 0x0A # codeValue) = ''@@ -1 +1 @@'' # splitLines codeValue"
  by simp

lemma DiffBlock_header_one:
  "DiffBlock (''@@ -1 +1 @@'' @ CHR 0x0A # codeValue)
     = metaRow ''@@ -1 +1 @@'' # DiffBlock codeValue"
proof -
  let ?h = "''@@ -1 +1 @@''"
  let ?ls = "splitLines codeValue"
  have "diffRowsFrom (?h # ?ls) 0 1 1 = [metaRow ?h] @ diffRowsFrom (?h # ?ls) (0 + 1) 1 1"
    using rowStep_header_one by (intro diffRowsFrom_step) simp_all
  then show ?thesis
    unfolding DiffBlock_def splitLines_header_one by (simp only: diffRowsFrom_shift append.simps)
qed

subsection \<open>Numbering without a header\<close>

lemma map_filter_append: "List.map_filter f (xs @ ys) = List.map_filter f xs @ List.map_filter f ys"
  by (simp add: List.map_filter_def)

lemma rowStep_numbers:
  assumes "\<not> startsWith ln ''@@''"
    and "rowStep ln nextLine oldLn newLn = (rows, step, oldLn', newLn')"
  shows "oldNumbers rows = [oldLn ..< oldLn'] \<and> newNumbers rows = [newLn ..< newLn']"
  using assms
  by (auto simp: rowStep_def Let_def oldNumbers_def newNumbers_def metaRow_def
      List.map_filter_simps split: if_splits)

lemma rowStep_classes:
  assumes "rowStep ln nextLine oldLn newLn = (rows, step, oldLn', newLn')" "r \<in> set rows"
  shows "numbersMatchClass r"
  using assms
  by (auto simp: rowStep_def Let_def numbersMatchClass_def metaRow_def
      split: if_splits option.splits)
lemma rowStep_monotone:
  assumes "rowStep ln nextLine oldLn newLn = (rows, step, oldLn', newLn')"
    and "\<not> startsWith ln ''@@''"
  shows "oldLn \<le> oldLn' \<and> newLn \<le> newLn'"
  using assms by (auto simp: rowStep_def Let_def split: if_splits)

lemma upt_numbers_append:
  assumes "xs = [a ..< b]" "ys = [b ..< b + length ys]" "a \<le> b"
  shows "xs @ ys = [a ..< a + length (xs @ ys)]"
proof -
  have "a + length (xs @ ys) = b + length ys" using assms(1,3) by simp
  moreover have "[a ..< b + length ys] = [a ..< b] @ [b ..< b + length ys]"
    using assms(3) by (rule upt_add_eq_append)
  ultimately show ?thesis using assms(1,2) by simp
qed

lemma diffRowsFrom_numbers:
  assumes nh: "\<forall>ln \<in> set lns. \<not> startsWith ln ''@@''"
  shows "oldNumbers (diffRowsFrom lns index oldLn newLn)
           = [oldLn ..< oldLn + length (oldNumbers (diffRowsFrom lns index oldLn newLn))] \<and>
         newNumbers (diffRowsFrom lns index oldLn newLn)
           = [newLn ..< newLn + length (newNumbers (diffRowsFrom lns index oldLn newLn))]"
  using nh
proof (induction lns index oldLn newLn rule: diffRowsFrom.induct)
  case (1 lns index oldLn newLn)
  show ?case
  proof (cases "index < length lns")
    case False
    then show ?thesis
      by (simp add: diffRowsFrom_done oldNumbers_def newNumbers_def List.map_filter_simps)
  next
    case True
    obtain rows step oldLn' newLn' where
      r: "rowStep (lineAt lns index) (lineAt lns (index + 1)) oldLn newLn
            = (rows, step, oldLn', newLn')"
      by (cases "rowStep (lineAt lns index) (lineAt lns (index + 1)) oldLn newLn") auto
    let ?rest = "diffRowsFrom lns (index + step) oldLn' newLn'"
    have u: "diffRowsFrom lns index oldLn newLn = rows @ ?rest"
      using True r by (rule diffRowsFrom_step)
    have "lineAt lns index \<in> set lns" using True by (simp add: lineAt_def)
    then have h: "\<not> startsWith (lineAt lns index) ''@@''" using "1.prems" by blast
    note n = rowStep_numbers [OF h r] and m = rowStep_monotone [OF r h]
    have ih: "oldNumbers ?rest = [oldLn' ..< oldLn' + length (oldNumbers ?rest)] \<and>
              newNumbers ?rest = [newLn' ..< newLn' + length (newNumbers ?rest)]"
      using True r [symmetric] refl refl "1.prems" by (rule "1.IH")
    have o: "oldNumbers (rows @ ?rest) = oldNumbers rows @ oldNumbers ?rest"
      and w: "newNumbers (rows @ ?rest) = newNumbers rows @ newNumbers ?rest"
      by (simp_all add: oldNumbers_def newNumbers_def map_filter_append)
    have "oldNumbers rows @ oldNumbers ?rest
        = [oldLn ..< oldLn + length (oldNumbers rows @ oldNumbers ?rest)]"
      using n ih m by (intro upt_numbers_append [where b = oldLn']) simp_all
    moreover have "newNumbers rows @ newNumbers ?rest
        = [newLn ..< newLn + length (newNumbers rows @ newNumbers ?rest)]"
      using n ih m by (intro upt_numbers_append [where b = newLn']) simp_all
    ultimately show ?thesis unfolding u o w by simp
  qed
qed

lemma diffRowsFrom_classes:
  "r \<in> set (diffRowsFrom lns index oldLn newLn) \<Longrightarrow> numbersMatchClass r"
proof (induction lns index oldLn newLn rule: diffRowsFrom.induct)
  case (1 lns index oldLn newLn)
  show ?case
  proof (cases "index < length lns")
    case False
    with "1.prems" show ?thesis by (simp add: diffRowsFrom_done)
  next
    case True
    obtain rows step oldLn' newLn' where
      s: "rowStep (lineAt lns index) (lineAt lns (index + 1)) oldLn newLn
            = (rows, step, oldLn', newLn')"
      by (cases "rowStep (lineAt lns index) (lineAt lns (index + 1)) oldLn newLn") auto
    from "1.prems" have "r \<in> set rows \<or> r \<in> set (diffRowsFrom lns (index + step) oldLn' newLn')"
      by (simp add: diffRowsFrom_step [OF True s])
    then show ?thesis
    proof
      assume "r \<in> set rows"
      with s show ?thesis by (rule rowStep_classes)
    next
      assume "r \<in> set (diffRowsFrom lns (index + step) oldLn' newLn')"
      with True s [symmetric] refl refl show ?thesis by (rule "1.IH")
    qed
  qed
qed

text \<open>
  Claim C10. Both cursors of \<open>DiffBlock\<close> start at 1: the rows of a text are those of the same
  text after the line \<open>@@ -1 +1 @@\<close>, less the meta row of that line; in a text without a line
  that starts with \<open>@@\<close>, the old numbers of the rows that carry one are \<open>1, 2, \<dots>\<close> in order,
  and so are the new numbers; and a row carries an old number exactly when it is a remove or a
  context row, a new number exactly when it is an add or a context row.
\<close>

theorem DiffBlock_cursors_start_at_one:
  "DiffBlock (''@@ -1 +1 @@'' @ CHR 0x0A # codeValue)
     = metaRow ''@@ -1 +1 @@'' # DiffBlock codeValue \<and>
   (\<not> list_ex (\<lambda>ln. startsWith ln ''@@'') (splitLines codeValue) \<longrightarrow>
      oldNumbers (DiffBlock codeValue)
        = [1 ..< 1 + length (oldNumbers (DiffBlock codeValue))] \<and>
      newNumbers (DiffBlock codeValue)
        = [1 ..< 1 + length (newNumbers (DiffBlock codeValue))]) \<and>
   (\<forall>r \<in> set (DiffBlock codeValue). numbersMatchClass r)"
proof (intro conjI impI ballI)
  show "DiffBlock (''@@ -1 +1 @@'' @ CHR 0x0A # codeValue)
     = metaRow ''@@ -1 +1 @@'' # DiffBlock codeValue"
    by (rule DiffBlock_header_one)
next
  assume "\<not> list_ex (\<lambda>ln. startsWith ln ''@@'') (splitLines codeValue)"
  then have nh: "\<forall>ln \<in> set (splitLines codeValue). \<not> startsWith ln ''@@''"
    by (simp add: list_ex_iff)
  from diffRowsFrom_numbers [OF nh, of 0 1 1]
  show "oldNumbers (DiffBlock codeValue)
        = [1 ..< 1 + length (oldNumbers (DiffBlock codeValue))]"
    and "newNumbers (DiffBlock codeValue)
        = [1 ..< 1 + length (newNumbers (DiffBlock codeValue))]"
    unfolding DiffBlock_def by blast+
next
  fix r assume "r \<in> set (DiffBlock codeValue)"
  then show "numbersMatchClass r"
    unfolding DiffBlock_def by (rule diffRowsFrom_classes)
qed

text \<open>
  The hypotheses of C10 at a text of four body lines and no header, which \<open>isLikelyDiff\<close>
  accepts with an empty language.
\<close>

theorem DiffBlock_cursors_start_at_one_witness:
  "\<not> list_ex (\<lambda>ln. startsWith ln ''@@'') (splitLines ''-a\<newline>+b\<newline> c\<newline>-d'') \<and>
   isLikelyDiff [] ''-a\<newline>+b\<newline> c\<newline>-d'' \<and>
   oldNumbers (DiffBlock ''-a\<newline>+b\<newline> c\<newline>-d'') = [1, 2, 3] \<and>
   newNumbers (DiffBlock ''-a\<newline>+b\<newline> c\<newline>-d'') = [1, 2] \<and>
   \<lparr>rowClass = RowContext, lnOld = Some 2, lnNew = Some 2, diffCode = Plain ''c''\<rparr>
     \<in> set (DiffBlock ''-a\<newline>+b\<newline> c\<newline>-d'') \<and>
   numbersMatchClass \<lparr>rowClass = RowContext, lnOld = Some 2, lnNew = Some 2, diffCode = Plain ''c''\<rparr>"
proof -
  let ?t = "''-a\<newline>+b\<newline> c\<newline>-d''"
  have h: "\<not> list_ex (\<lambda>ln. startsWith ln ''@@'') (splitLines ?t)" by code_simp
  have a: "isLikelyDiff [] ?t" by code_simp
  have l: "length (oldNumbers (DiffBlock ?t)) = 3" "length (newNumbers (DiffBlock ?t)) = 2"
    by code_simp+
  have m: "\<lparr>rowClass = RowContext, lnOld = Some 2, lnNew = Some 2, diffCode = Plain ''c''\<rparr>
     \<in> set (DiffBlock ?t)"
    by code_simp
  note t = DiffBlock_cursors_start_at_one [of ?t]
  from t h have "oldNumbers (DiffBlock ?t) = [1 ..< 1 + length (oldNumbers (DiffBlock ?t))]"
    "newNumbers (DiffBlock ?t) = [1 ..< 1 + length (newNumbers (DiffBlock ?t))]"
    by blast+
  then have n: "oldNumbers (DiffBlock ?t) = [1, 2, 3]" "newNumbers (DiffBlock ?t) = [1, 2]"
    unfolding l by (simp_all add: upt_rec)
  from t m have "numbersMatchClass
      \<lparr>rowClass = RowContext, lnOld = Some 2, lnNew = Some 2, diffCode = Plain ''c''\<rparr>"
    by blast
  with h a n m show ?thesis by blast
qed

end
